theory Spec2Isabelle
  imports Main "HOL-Library.Word"
begin

section \<open>The value model of \<open>json_parser.cpp\<close>\<close>

text \<open>
  \<open>struct JSONObject\<close> is a tag (\<open>enum class JSONType\<close>) with the payload its
  constructor sets. The embedding keeps the tag and the active payload:
  \<^item> \<open>Int32\<close> (the tag \<open>JSONType::Int\<close>; the name \<open>Int\<close> is taken in HOL) holds
    the C++ \<open>int\<close>, a 32-bit two's complement value read by \<open>sint\<close>;
  \<^item> \<open>Double\<close> holds the decimal text that \<open>strtod\<close> converted: the binary64 value is
    \<open>strtod\<close> of that text, and its rounding is not part of the embedding;
  \<^item> \<open>Dict\<close> holds the entries of the \<open>std::unordered_map\<close>, one per key, listed in
    the order the keys were first inserted. The container has no such order: trees are
    compared by \<open>same_tree\<close>, and the printer walks a dictionary in an order of its
    own.
\<close>

datatype JSONObject =
    Null
  | Bool bool
  | Int32 "32 word"
  | Double string
  | String string
  | List "JSONObject list"
  | Dict "(string \<times> JSONObject) list"

subsection \<open>Characters\<close>

text \<open>
  \<open>isspace\<close> and \<open>isdigit\<close> in the "C" locale (the program never calls
  \<open>setlocale\<close>): the six white-space characters space, \<open>\t \n \v \f \r\<close>, and the ten
  decimal digits. No byte above \<open>0x7F\<close> is in either class.
\<close>

definition isspace :: "char \<Rightarrow> bool" where
  "isspace c \<longleftrightarrow> c = CHR 0x20 \<or> c = CHR 0x09 \<or> c = CHR 0x0A \<or> c = CHR 0x0B
     \<or> c = CHR 0x0C \<or> c = CHR 0x0D"

definition isdigit :: "char \<Rightarrow> bool" where
  "isdigit c \<longleftrightarrow> c = CHR ''0'' \<or> c = CHR ''1'' \<or> c = CHR ''2'' \<or> c = CHR ''3''
     \<or> c = CHR ''4'' \<or> c = CHR ''5'' \<or> c = CHR ''6'' \<or> c = CHR ''7''
     \<or> c = CHR ''8'' \<or> c = CHR ''9''"

definition is_sign :: "char \<Rightarrow> bool" where
  "is_sign c \<longleftrightarrow> c = CHR ''+'' \<or> c = CHR ''-''"

text \<open>An optional sign at the head of a text: the sign, or nothing.\<close>

definition opt_sign :: "string \<Rightarrow> string" where
  "opt_sign s = (case s of [] \<Rightarrow> [] | c # t \<Rightarrow> if is_sign c then [c] else [])"

definition dquote :: char where
  "dquote = CHR 0x22"

definition backslash :: char where
  "backslash = CHR 0x5C"

text \<open>
  \<open>json[i]\<close> on a \<open>const std::string\<close>: the character at \<open>i\<close>, and the terminating
  \<open>'\0'\<close> at \<open>i == json.size()\<close>.
\<close>

definition at :: "string \<Rightarrow> nat \<Rightarrow> char" where
  "at json i = (if i < length json then json ! i else CHR 0x00)"

fun unescaped_char :: "char \<Rightarrow> char" where
  "unescaped_char c =
     (if c = CHR ''n'' then CHR 0x0A
      else if c = CHR ''r'' then CHR 0x0D
      else if c = CHR ''0'' then CHR 0x00
      else if c = CHR ''t'' then CHR 0x09
      else if c = CHR ''v'' then CHR 0x0B
      else if c = CHR ''f'' then CHR 0x0C
      else if c = CHR ''b'' then CHR 0x08
      else if c = CHR ''a'' then CHR 0x07
      else c)"

subsection \<open>Numbers\<close>

text \<open>The value of a decimal digit and of a run of digits.\<close>

definition digit_val :: "char \<Rightarrow> int" where
  "digit_val c = int (of_char c) - 48"

definition dec_val :: "string \<Rightarrow> int" where
  "dec_val ds = foldl (\<lambda>a c. 10 * a + digit_val c) 0 ds"

text \<open>
  \<open>strtol(str, &end, 10)\<close> where \<open>long\<close> has 64 bits (LP64): white space, an optional
  sign, digits. The result is the value, clamped to the range of \<open>long\<close>, and the text
  from \<open>end\<close> on. Without a digit nothing is converted and \<open>end\<close> is the start.
\<close>

definition LONG_MAX :: int where
  "LONG_MAX = 2 ^ 63 - 1"

definition LONG_MIN :: int where
  "LONG_MIN = - (2 ^ 63)"

definition strtol :: "string \<Rightarrow> int \<times> string" where
  "strtol str =
     (let s1 = dropWhile isspace str;
          sg = opt_sign s1;
          s2 = drop (length sg) s1;
          ds = takeWhile isdigit s2
      in if ds = [] then (0, str)
         else (max LONG_MIN (min LONG_MAX (if sg = ''-'' then - dec_val ds else dec_val ds)),
               dropWhile isdigit s2))"

text \<open>\<open>*end == '\0'\<close> on the C string of \<open>str\<close>: at its end, or at an embedded NUL.\<close>

definition at_nul :: "string \<Rightarrow> bool" where
  "at_nul e \<longleftrightarrow> e = [] \<or> hd e = CHR 0x00"

text \<open>
  \<open>try_parse_int\<close> stores the \<open>long\<close> into an \<open>int\<close>, which keeps its low 32 bits,
  and returns whether the whole text was consumed. The pair is (returned flag, \<open>value\<close>).
\<close>

definition try_parse_int :: "string \<Rightarrow> bool \<times> 32 word" where
  "try_parse_int str = (let (v, e) = strtol str in (at_nul e, word_of_int v))"

text \<open>
  \<open>strtod(str, &end)\<close> on decimal text: white space, an optional sign, digits with an
  optional point (at least one digit in all), an optional exponent with at least one
  digit. The result is the converted text, which stands for the value, and the text
  from \<open>end\<close> on. The hexadecimal, infinity and NaN forms of \<open>strtod\<close> need a letter
  other than \<open>e\<close> and \<open>E\<close>; \<open>parse\<close> calls \<open>strtod\<close> on matches of \<open>num_re\<close> only,
  which hold none.
\<close>

definition frac_part :: "string \<Rightarrow> string" where
  "frac_part s =
     (case s of [] \<Rightarrow> [] | c # t \<Rightarrow> if c = CHR ''.'' then c # takeWhile isdigit t else [])"

definition exponent_part :: "string \<Rightarrow> string" where
  "exponent_part s =
     (case s of
        [] \<Rightarrow> []
      | e # t \<Rightarrow>
          if e = CHR ''e'' \<or> e = CHR ''E'' then
            (let sg = opt_sign t;
                 ds = takeWhile isdigit (drop (length sg) t)
             in if ds = [] then [] else e # sg @ ds)
          else [])"

definition strtod :: "string \<Rightarrow> string \<times> string" where
  "strtod str =
     (let s1 = dropWhile isspace str;
          sg = opt_sign s1;
          s2 = drop (length sg) s1;
          ip = takeWhile isdigit s2;
          s3 = dropWhile isdigit s2;
          fp = frac_part s3;
          s4 = drop (length fp) s3
      in if ip = [] \<and> length fp \<le> 1 then ([], str)
         else (let ep = exponent_part s4
               in (sg @ ip @ fp @ ep, drop (length ep) s4)))"

definition try_parse_double :: "string \<Rightarrow> bool \<times> string" where
  "try_parse_double str = (let (v, e) = strtod str in (at_nul e, v))"

text \<open>
  \<open>num_re\<close> is \<open>[+-]?[0-9]+(\.[0-9]*)?([eE][+-]?[0-9]+)?\<close>. \<open>num_re_match\<close> is its
  match at the head of a text under the ECMAScript rules: every quantifier is greedy,
  and an optional group that cannot be completed matches nothing. The pieces are
  \<open>opt_sign\<close> for \<open>[+-]?\<close>, the longest run of digits for \<open>[0-9]+\<close>, \<open>frac_part\<close> for
  \<open>(\.[0-9]*)?\<close> and \<open>exponent_part\<close> for \<open>([eE][+-]?[0-9]+)?\<close>. A sign that no digit
  follows gives no match at that position.
\<close>

definition num_re_match :: "string \<Rightarrow> string option" where
  "num_re_match s =
     (let sg = opt_sign s;
          s2 = drop (length sg) s;
          ip = takeWhile isdigit s2;
          s3 = dropWhile isdigit s2;
          fp = frac_part s3;
          s4 = drop (length fp) s3
      in if ip = [] then None else Some (sg @ ip @ fp @ exponent_part s4))"

text \<open>
  \<open>std::regex_search\<close> over \<open>[json.begin() + start, json.end())\<close>: the match at the
  first position that has one. The search is not anchored at \<open>start\<close>.
\<close>

fun regex_search :: "string \<Rightarrow> string option" where
  "regex_search [] = None"
| "regex_search (c # t) =
     (case num_re_match (c # t) of Some m \<Rightarrow> Some m | None \<Rightarrow> regex_search t)"

text \<open>
  The number branch of \<open>parse\<close>. \<open>None\<close> means that the branch returned nothing and
  control goes on to the next \<open>if\<close>.
\<close>

definition parse_number :: "string \<Rightarrow> nat \<Rightarrow> (JSONObject \<times> nat) option" where
  "parse_number json start =
     (case regex_search (drop start json) of
        None \<Rightarrow> None
      | Some str \<Rightarrow>
          (let (ok, intValue) = try_parse_int str
           in if ok then Some (Int32 intValue, start + length str)
              else (let (okd, doubleValue) = try_parse_double str
                    in if okd then Some (Double doubleValue, start + length str)
                       else None)))"

subsection \<open>White space and strings\<close>

function skip_ws :: "string \<Rightarrow> nat \<Rightarrow> nat" where
  "skip_ws json start =
     (if start < length json \<and> isspace (json ! start) then skip_ws json (start + 1)
      else start)"
  by pat_completeness auto
termination
  by (relation "measure (\<lambda>(json, start). length json - start)") auto

declare skip_ws.simps [simp del]

text \<open>
  The loop of the string branch, from \<open>i\<close> with the characters decoded so far. \<open>None\<close>
  means that the loop ended at the end of the buffer without returning.
\<close>

function string_loop :: "string \<Rightarrow> nat \<Rightarrow> string \<Rightarrow> (JSONObject \<times> nat) option" where
  "string_loop json i str =
     (if i < length json then
        (if json ! i = backslash then
           string_loop json (i + 2)
             (if i + 1 < length json then str @ [unescaped_char (json ! (i + 1))] else str)
         else if json ! i = dquote then Some (String str, i + 1)
         else string_loop json (i + 1) (str @ [json ! i]))
      else None)"
  by pat_completeness auto
termination
  by (relation "measure (\<lambda>(json, i, str). length json - i)") auto

declare string_loop.simps [simp del]

subsection \<open>The parser\<close>

text \<open>\<open>res[key] = value\<close> on the dictionary: overwrite the entry of the key, or add one.\<close>

fun dict_set :: "string \<Rightarrow> JSONObject \<Rightarrow> (string \<times> JSONObject) list \<Rightarrow> (string \<times> JSONObject) list" where
  "dict_set k v [] = [(k, v)]"
| "dict_set k v ((k', v') # d) = (if k' = k then (k, v) # d else (k', v') # dict_set k v d)"

text \<open>
  \<open>parse\<close> recurses through its array and object loops, and the loops need not end, so
  the three functions take fuel: one unit for each call of \<open>parse\<close> and for each test of
  a loop condition. The outer \<open>None\<close> is "out of fuel". For the loops the inner \<open>None\<close>
  means that the loop ended (\<open>i >= json.size()\<close>) without returning, after which
  \<open>parse\<close> goes on to the next \<open>if\<close> and at last to \<open>return {JSONObject(), start}\<close>.
\<close>

fun parse :: "nat \<Rightarrow> string \<Rightarrow> nat \<Rightarrow> (JSONObject \<times> nat) option"
  and array_loop :: "nat \<Rightarrow> string \<Rightarrow> nat \<Rightarrow> JSONObject list \<Rightarrow> (JSONObject \<times> nat) option option"
  and object_loop :: "nat \<Rightarrow> string \<Rightarrow> nat \<Rightarrow> (string \<times> JSONObject) list \<Rightarrow> (JSONObject \<times> nat) option option"
where
  "parse 0 json start0 = None"
| "parse (Suc n) json start0 =
     (let start = skip_ws json start0 in
      if start \<ge> length json then Some (Null, start)
      else
        (let first = json ! start in
         case (if isdigit first \<or> first = CHR ''-'' \<or> first = CHR ''+''
               then parse_number json start else None) of
           Some r \<Rightarrow> Some r
         | None \<Rightarrow>
            (case (if first = dquote then string_loop json (start + 1) [] else None) of
               Some r \<Rightarrow> Some r
             | None \<Rightarrow>
                (case (if first = CHR ''['' then array_loop n json (start + 1) [] else Some None) of
                   None \<Rightarrow> None
                 | Some (Some r) \<Rightarrow> Some r
                 | Some None \<Rightarrow>
                    (case (if first = CHR ''{'' then object_loop n json (start + 1) [] else Some None) of
                       None \<Rightarrow> None
                     | Some (Some r) \<Rightarrow> Some r
                     | Some None \<Rightarrow> Some (Null, start))))))"
| "array_loop 0 json i res = None"
| "array_loop (Suc n) json i res =
     (if i < length json then
        (if json ! i = CHR '']'' then Some (Some (List res, i + 1))
         else
           (case parse n json i of
              None \<Rightarrow> None
            | Some (obj, next) \<Rightarrow>
                array_loop n json (if at json next = CHR '','' then next + 1 else next) (res @ [obj])))
      else Some None)"
| "object_loop 0 json i res = None"
| "object_loop (Suc n) json i res =
     (if i < length json then
        (if json ! i = CHR ''}'' then Some (Some (Dict res, i + 1))
         else
           (case parse n json i of
              None \<Rightarrow> None
            | Some (keyobj, keyeaten) \<Rightarrow>
                (case parse n json (if at json keyeaten = CHR '':'' then keyeaten + 1 else keyeaten) of
                   None \<Rightarrow> None
                 | Some (valobj, valeaten) \<Rightarrow>
                     object_loop n json (if at json valeaten = CHR '','' then valeaten + 1 else valeaten)
                       (case keyobj of String k \<Rightarrow> dict_set k valobj res | _ \<Rightarrow> res))))
      else Some None)"

declare parse.simps [simp del] array_loop.simps [simp del] object_loop.simps [simp del]

declare unescaped_char.simps [simp del]

text \<open>
  The call \<open>parse(json, start)\<close> returns \<open>r\<close> when some amount of fuel is enough for
  it; it terminates when it returns something.
\<close>

definition parse_returns :: "string \<Rightarrow> nat \<Rightarrow> JSONObject \<times> nat \<Rightarrow> bool" where
  "parse_returns json start r \<longleftrightarrow> (\<exists>n. parse n json start = Some r)"

definition parse_terminates :: "string \<Rightarrow> nat \<Rightarrow> bool" where
  "parse_terminates json start \<longleftrightarrow> (\<exists>n r. parse n json start = Some r)"

text \<open>
  Whether a text, read from just after an opening quote, holds a closing quote: a
  \<open>"\<close> that is not the character after a backslash.
\<close>

fun has_close :: "string \<Rightarrow> bool" where
  "has_close [] = False"
| "has_close [c] = (c = dquote)"
| "has_close (c # d # t) =
     (if c = backslash then has_close t else if c = dquote then True else has_close (d # t))"

subsection \<open>The printer\<close>

text \<open>
  \<open>std::cout << intVal\<close>: the decimal digits of the value, after a \<open>-\<close> when it is
  negative.
\<close>

definition digit_char :: "nat \<Rightarrow> char" where
  "digit_char d = ''0123456789'' ! d"

fun show_nat :: "nat \<Rightarrow> string" where
  "show_nat n = (if n < 10 then [digit_char n] else show_nat (n div 10) @ [digit_char (n mod 10)])"

declare show_nat.simps [simp del]

definition show_int :: "int \<Rightarrow> string" where
  "show_int i = (if i < 0 then CHR ''-'' # show_nat (nat (- i)) else show_nat (nat i))"

text \<open>
  \<open>std::cout << doubleVal\<close> in the stream's default format writes the value as
  \<open>printf\<close> does for \<open>%g\<close> with precision 6. For a value that is a nonzero integer
  of at most six digits that is the decimal digits of the integer, without a point.
  \<open>integral_value\<close> finds such a value from the text that the \<open>Double\<close> stands for: a
  sign, digits, a point and zeros only. For every other value the text written is the
  library's formatting of the binary64 value, the parameter \<open>fmt\<close>.
\<close>

definition integral_value :: "string \<Rightarrow> int option" where
  "integral_value d =
     (let sg = opt_sign d;
          s2 = drop (length sg) d;
          ip = takeWhile isdigit s2;
          r = dropWhile isdigit s2
      in if ip \<noteq> [] \<and> r \<noteq> [] \<and> hd r = CHR ''.'' \<and> filter (\<lambda>c. c \<noteq> CHR ''0'') (tl r) = []
         then Some (if sg = ''-'' then - dec_val ip else dec_val ip)
         else None)"

definition show_double :: "(string \<Rightarrow> string) \<Rightarrow> string \<Rightarrow> string" where
  "show_double fmt d =
     (case integral_value d of
        None \<Rightarrow> fmt d
      | Some i \<Rightarrow> if i \<noteq> 0 \<and> - 1000000 < i \<and> i < 1000000 then show_int i else fmt d)"

text \<open>
  \<open>JSONObject::print\<close>, with the text written to \<open>std::cout\<close> as the result.

  The \<open>Dict\<close> case of \<open>print\<close> walks the \<open>std::unordered_map\<close> from \<open>begin()\<close> to
  \<open>end()\<close>. That order is the container's own and is not the order of insertion; it
  is the parameter \<open>ord\<close>, which maps the entries of a dictionary to the list of them
  in the order of the walk. \<open>arrange\<close> lists every dictionary of a tree in that order,
  from the leaves up. \<open>render\<close> is the \<open>switch\<close> of \<open>print\<close> on a tree so listed;
  \<open>render_list\<close> and \<open>render_dict\<close> are its two loops, which write \<open>", "\<close> after every
  element but the last. \<open>print\<close> is \<open>render\<close> of the arranged tree.
\<close>

fun render :: "(string \<Rightarrow> string) \<Rightarrow> JSONObject \<Rightarrow> string"
  and render_list :: "(string \<Rightarrow> string) \<Rightarrow> JSONObject list \<Rightarrow> string"
  and render_dict :: "(string \<Rightarrow> string) \<Rightarrow> (string \<times> JSONObject) list \<Rightarrow> string"
where
  "render fmt Null = ''null''"
| "render fmt (Bool b) = (if b then ''true'' else ''false'')"
| "render fmt (Int32 i) = show_int (sint i)"
| "render fmt (Double d) = show_double fmt d"
| "render fmt (String s) = dquote # s @ [dquote]"
| "render fmt (List l) = ''['' @ render_list fmt l @ '']''"
| "render fmt (Dict d) = ''{'' @ render_dict fmt d @ ''}''"
| "render_list fmt [] = []"
| "render_list fmt [x] = render fmt x"
| "render_list fmt (x # y # l) = render fmt x @ '', '' @ render_list fmt (y # l)"
| "render_dict fmt [] = []"
| "render_dict fmt [(k, v)] = dquote # k @ dquote # '': '' @ render fmt v"
| "render_dict fmt ((k, v) # e # d) =
     dquote # k @ dquote # '': '' @ render fmt v @ '', '' @ render_dict fmt (e # d)"



text \<open>
  What is known of the walk of a container: it visits every entry once. \<open>ord\<close> is an
  iteration order when, for entries with unique keys, it returns the same entries, again
  with unique keys.
\<close>

definition iteration_order :: "((string \<times> JSONObject) list \<Rightarrow> (string \<times> JSONObject) list) \<Rightarrow> bool" where
  "iteration_order ord \<longleftrightarrow>
     (\<forall>d. distinct (map fst d) \<longrightarrow> distinct (map fst (ord d)) \<and> set (ord d) = set d)"

text \<open>
  A text is plain when the string loop reads it back as it is: it holds no \<open>"\<close> and no
  backslash. A tree is renderable when it has no \<open>Null\<close> and no \<open>Double\<close> node and all
  its strings and keys are plain.
\<close>

definition plain :: "string \<Rightarrow> bool" where
  "plain s \<longleftrightarrow> dquote \<notin> set s \<and> backslash \<notin> set s"

fun renderable :: "JSONObject \<Rightarrow> bool"
  and renderable_list :: "JSONObject list \<Rightarrow> bool"
  and renderable_dict :: "(string \<times> JSONObject) list \<Rightarrow> bool"
where
  "renderable Null = False"
| "renderable (Bool b) = True"
| "renderable (Int32 i) = True"
| "renderable (Double d) = False"
| "renderable (String s) = plain s"
| "renderable (List l) = renderable_list l"
| "renderable (Dict d) = renderable_dict d"
| "renderable_list [] = True"
| "renderable_list (x # l) = (renderable x \<and> renderable_list l)"
| "renderable_dict [] = True"
| "renderable_dict ((k, v) # d) = (plain k \<and> renderable v \<and> renderable_dict d)"

text \<open>
  What holds of every tree that \<open>parse\<close> builds: it has no \<open>Bool\<close> node, since \<open>parse\<close>
  never calls \<open>JSONObject(bool)\<close>, and no dictionary lists a key twice, since the keys
  of a \<open>std::unordered_map\<close> are unique.
\<close>

fun well_formed :: "JSONObject \<Rightarrow> bool"
  and well_formed_list :: "JSONObject list \<Rightarrow> bool"
  and well_formed_dict :: "(string \<times> JSONObject) list \<Rightarrow> bool"
where
  "well_formed Null = True"
| "well_formed (Bool b) = False"
| "well_formed (Int32 i) = True"
| "well_formed (Double d) = True"
| "well_formed (String s) = True"
| "well_formed (List l) = well_formed_list l"
| "well_formed (Dict d) = (distinct (map fst d) \<and> well_formed_dict d)"
| "well_formed_list [] = True"
| "well_formed_list (x # l) = (well_formed x \<and> well_formed_list l)"
| "well_formed_dict [] = True"
| "well_formed_dict ((k, v) # d) = (well_formed v \<and> well_formed_dict d)"


text \<open>
  The text of an object literal with the given entries, each value written by \<open>render\<close>,
  with the white space \<open>w1\<close> after every colon and \<open>w2\<close> after every comma. A key may
  occur in several entries.
\<close>

fun object_entries :: "(string \<Rightarrow> string) \<Rightarrow> string \<Rightarrow> string \<Rightarrow> (string \<times> JSONObject) list \<Rightarrow> string" where
  "object_entries fmt w1 w2 [] = []"
| "object_entries fmt w1 w2 [(k, v)] = dquote # k @ dquote # CHR '':'' # w1 @ render fmt v"
| "object_entries fmt w1 w2 ((k, v) # e # d) =
     dquote # k @ dquote # CHR '':'' # w1 @ render fmt v @ CHR '','' # w2
       @ object_entries fmt w1 w2 (e # d)"

definition object_literal :: "(string \<Rightarrow> string) \<Rightarrow> string \<Rightarrow> string \<Rightarrow> (string \<times> JSONObject) list \<Rightarrow> string" where
  "object_literal fmt w1 w2 d = CHR ''{'' # object_entries fmt w1 w2 d @ ''}''"

text \<open>The dictionary after the assignments \<open>res[k] = v\<close> for the entries, in order.\<close>

definition assign_all :: "(string \<times> JSONObject) list \<Rightarrow> (string \<times> JSONObject) list
    \<Rightarrow> (string \<times> JSONObject) list" where
  "assign_all res d = foldl (\<lambda>r (k, v). dict_set k v r) res d"

text \<open>
  The loops of \<open>parse\<close> return \<open>r\<close> when some amount of fuel is enough. \<open>shift k\<close>
  moves a returned cursor by \<open>k\<close>.
\<close>

definition array_returns :: "string \<Rightarrow> nat \<Rightarrow> JSONObject list \<Rightarrow> JSONObject \<times> nat \<Rightarrow> bool" where
  "array_returns json i res r \<longleftrightarrow> (\<exists>n. array_loop n json i res = Some (Some r))"

definition object_returns :: "string \<Rightarrow> nat \<Rightarrow> (string \<times> JSONObject) list \<Rightarrow> JSONObject \<times> nat \<Rightarrow> bool" where
  "object_returns json i res r \<longleftrightarrow> (\<exists>n. object_loop n json i res = Some (Some r))"

definition shift :: "nat \<Rightarrow> JSONObject \<times> nat \<Rightarrow> JSONObject \<times> nat" where
  "shift k r = (fst r, k + snd r)"

text \<open>
  A text is delimited when nothing follows or a comma or a closing bracket does: what
  follows a value that \<open>render\<close> wrote.
\<close>

definition delimited :: "string \<Rightarrow> bool" where
  "delimited r \<longleftrightarrow> r = [] \<or> hd r = CHR '','' \<or> hd r = CHR '']'' \<or> hd r = CHR ''}''"

text \<open>A text of white space only.\<close>

fun all_space :: "string \<Rightarrow> bool" where
  "all_space [] = True"
| "all_space (c # w) = (isspace c \<and> all_space w)"

text \<open>
  A matched literal is an integer text when it has no point and no exponent: no
  \<open>.\<close>, \<open>e\<close> or \<open>E\<close> occurs in it.
\<close>

definition integer_text :: "string \<Rightarrow> bool" where
  "integer_text m \<longleftrightarrow> CHR ''.'' \<notin> set m \<and> CHR ''e'' \<notin> set m \<and> CHR ''E'' \<notin> set m"

section \<open>Properties\<close>

subsection \<open>White space\<close>

lemma skip_ws_ge: "start \<le> skip_ws json start"
proof (induction json start rule: skip_ws.induct)
  case (1 json start)
  show ?case
  proof (cases "start < length json \<and> isspace (json ! start)")
    case True
    with 1 have "start + 1 \<le> skip_ws json (start + 1)" by simp
    moreover from True have "skip_ws json start = skip_ws json (start + 1)"
      by (subst skip_ws.simps) simp
    ultimately show ?thesis by simp
  next
    case False
    then have "skip_ws json start = start" by (subst skip_ws.simps) auto
    then show ?thesis by simp
  qed
qed

lemma skip_ws_le: "skip_ws json start \<le> max start (length json)"
proof (induction json start rule: skip_ws.induct)
  case (1 json start)
  show ?case
  proof (cases "start < length json \<and> isspace (json ! start)")
    case True
    with 1 have "skip_ws json (start + 1) \<le> max (start + 1) (length json)" by simp
    moreover from True have "skip_ws json start = skip_ws json (start + 1)"
      by (subst skip_ws.simps) simp
    ultimately show ?thesis using True by simp
  next
    case False
    then have "skip_ws json start = start" by (subst skip_ws.simps) auto
    then show ?thesis by simp
  qed
qed

lemma skip_ws_stop: "skip_ws json start < length json \<Longrightarrow> \<not> isspace (json ! skip_ws json start)"
proof (induction json start rule: skip_ws.induct)
  case (1 json start)
  show ?case
  proof (cases "start < length json \<and> isspace (json ! start)")
    case True
    then have eq: "skip_ws json start = skip_ws json (start + 1)"
      by (subst skip_ws.simps) simp
    with 1 True show ?thesis by simp
  next
    case False
    then have "skip_ws json start = start" by (subst skip_ws.simps) auto
    with False 1 show ?thesis by auto
  qed
qed

lemma skip_ws_past: "length json \<le> start \<Longrightarrow> skip_ws json start = start"
  by (subst skip_ws.simps) simp

lemma skip_ws_nonspace: "start < length json \<Longrightarrow> \<not> isspace (json ! start) \<Longrightarrow> skip_ws json start = start"
  by (subst skip_ws.simps) simp

lemma parse_fallback:
  assumes "skip_ws json start < length json"
    and "\<not> isdigit (json ! skip_ws json start)"
    and "json ! skip_ws json start \<notin> {CHR ''-'', CHR ''+'', dquote, CHR ''['', CHR ''{''}"
  shows "parse (Suc n) json start = Some (Null, skip_ws json start)"
  using assms by (simp add: parse.simps Let_def)

lemma parse_exhausted:
  assumes "length json \<le> skip_ws json start"
  shows "parse (Suc n) json start = Some (Null, max start (length json))"
proof -
  have "skip_ws json start = max start (length json)"
    using assms skip_ws_ge [of start json] skip_ws_le [of json start] by simp
  then show ?thesis using assms by (simp add: parse.simps Let_def)
qed

subsection \<open>The string loop\<close>

lemma string_loop_bounds:
  "string_loop json i str = Some (v, e) \<Longrightarrow> i < e \<and> e \<le> length json \<and> (\<exists>s. v = String s)"
proof (induction json i str rule: string_loop.induct)
  case (1 json i str)
  note step = string_loop.simps [of json i str]
  show ?case
  proof (cases "i < length json")
    case False
    with "1.prems" step show ?thesis by simp
  next
    case inb: True
    show ?thesis
    proof (cases "json ! i = backslash")
      case True
      with inb "1.prems" step have
        "string_loop json (i + 2)
           (if i + 1 < length json then str @ [unescaped_char (json ! (i + 1))] else str) = Some (v, e)"
        by simp
      with "1.IH"(1) [OF inb True] show ?thesis by simp
    next
      case nb: False
      show ?thesis
      proof (cases "json ! i = dquote")
        case True
        with inb nb "1.prems" step show ?thesis by auto
      next
        case False
        with inb nb "1.prems" step have "string_loop json (i + 1) (str @ [json ! i]) = Some (v, e)"
          by simp
        with "1.IH"(2) [OF inb nb False] show ?thesis by simp
      qed
    qed
  qed
qed

lemma string_loop_None_iff: "string_loop json i str = None \<longleftrightarrow> \<not> has_close (drop i json)"
proof (induction json i str rule: string_loop.induct)
  case (1 json i str)
  note step = string_loop.simps [of json i str]
  show ?case
  proof (cases "i < length json")
    case False
    with step show ?thesis by simp
  next
    case inb: True
    then have d: "drop i json = json ! i # drop (Suc i) json"
      by (simp add: Cons_nth_drop_Suc)
    show ?thesis
    proof (cases "json ! i = backslash")
      case True
      have "has_close (drop i json) = has_close (drop (i + 2) json)"
      proof (cases "Suc i < length json")
        case True
        then have "drop (Suc i) json = json ! Suc i # drop (Suc (Suc i)) json"
          by (simp add: Cons_nth_drop_Suc)
        with d \<open>json ! i = backslash\<close> show ?thesis by simp
      next
        case False
        with d \<open>json ! i = backslash\<close> show ?thesis by (simp add: backslash_def dquote_def)
      qed
      with "1.IH"(1) [OF inb True] step inb True show ?thesis by simp
    next
      case nb: False
      show ?thesis
      proof (cases "json ! i = dquote")
        case True
        with inb nb step d show ?thesis
          by (cases "drop (Suc i) json") simp_all
      next
        case False
        have "has_close (drop i json) = has_close (drop (Suc i) json)"
          using d nb False by (cases "drop (Suc i) json") simp_all
        with "1.IH"(2) [OF inb nb False] step inb nb False show ?thesis by simp
      qed
    qed
  qed
qed

subsection \<open>The number lexer\<close>

lemma opt_sign_prefix: "opt_sign s @ drop (length (opt_sign s)) s = s"
  by (simp add: opt_sign_def split: list.splits)

lemma opt_sign_length: "length (opt_sign s) \<le> length s"
  by (simp add: opt_sign_def split: list.splits)

lemma takeWhile_drop_id: "takeWhile P xs @ drop (length (takeWhile P xs)) xs = xs"
  by (simp add: dropWhile_eq_drop [symmetric])

lemma frac_part_prefix: "frac_part s @ drop (length (frac_part s)) s = s"
  by (simp add: frac_part_def takeWhile_drop_id split: list.splits)

lemma exponent_part_prefix: "exponent_part s @ drop (length (exponent_part s)) s = s"
proof (cases s)
  case Nil
  then show ?thesis by (simp add: exponent_part_def)
next
  case (Cons e t)
  have "opt_sign t @ takeWhile isdigit (drop (length (opt_sign t)) t)
        @ dropWhile isdigit (drop (length (opt_sign t)) t) = t"
    by (simp add: opt_sign_prefix)
  then have "opt_sign t @ takeWhile isdigit (drop (length (opt_sign t)) t)
        @ drop (length (opt_sign t) + length (takeWhile isdigit (drop (length (opt_sign t)) t))) t = t"
    by (simp add: dropWhile_eq_drop add.commute)
  with Cons show ?thesis
    by (simp add: exponent_part_def Let_def)
qed

lemma num_re_match_prefix:
  assumes "num_re_match s = Some m"
  shows "m @ drop (length m) s = s"
proof -
  define sg where "sg = opt_sign s"
  define s2 where "s2 = drop (length sg) s"
  define ip where "ip = takeWhile isdigit s2"
  define s3 where "s3 = dropWhile isdigit s2"
  define fp where "fp = frac_part s3"
  define s4 where "s4 = drop (length fp) s3"
  define ep where "ep = exponent_part s4"
  from assms have m: "m = sg @ ip @ fp @ ep"
    by (auto simp: num_re_match_def Let_def sg_def s2_def ip_def s3_def fp_def s4_def ep_def
        split: if_splits)
  have 1: "s = sg @ s2" by (simp add: sg_def s2_def opt_sign_prefix)
  have 2: "s2 = ip @ s3" by (simp add: ip_def s3_def)
  have 3: "s3 = fp @ s4" by (simp add: fp_def s4_def frac_part_prefix)
  have 4: "s4 = ep @ drop (length ep) s4" by (simp add: ep_def exponent_part_prefix)
  have "s = m @ drop (length ep) s4"
    using 1 2 3 4 m by simp
  then show ?thesis
    by (metis append_eq_conv_conj)
qed

lemma num_re_match_length: "num_re_match s = Some m \<Longrightarrow> length m \<le> length s"
  by (metis num_re_match_prefix length_append le_add1)

lemma regex_search_length: "regex_search s = Some m \<Longrightarrow> length m \<le> length s"
proof (induction s)
  case Nil
  then show ?case by simp
next
  case (Cons c t)
  then show ?case
    by (auto split: option.splits dest: num_re_match_length)
qed

lemma parse_number_bounds:
  assumes "parse_number json start = Some (v, e)"
  shows "start \<le> e \<and> e \<le> max start (length json)"
proof -
  from assms obtain str where s: "regex_search (drop start json) = Some str"
    and e: "e = start + length str"
    by (auto simp: parse_number_def Let_def split: option.splits prod.splits if_splits)
  from regex_search_length [OF s] have "length str \<le> length json - start" by simp
  with e show ?thesis by auto
qed


subsection \<open>Cursor bounds and fuel\<close>

lemma cursor_bounds_all:
  "(\<forall>json s v e. parse n json s = Some (v, e) \<longrightarrow> s \<le> e \<and> e \<le> max s (length json)) \<and>
   (\<forall>json i res v e. array_loop n json i res = Some (Some (v, e)) \<longrightarrow> i < e \<and> e \<le> length json) \<and>
   (\<forall>json i res v e. object_loop n json i res = Some (Some (v, e)) \<longrightarrow> i < e \<and> e \<le> length json)"
proof (induction n)
  case 0
  show ?case by (simp add: parse.simps array_loop.simps object_loop.simps)
next
  case (Suc n)
  note IHp = Suc.IH [THEN conjunct1, rule_format]
  note IHa = Suc.IH [THEN conjunct2, THEN conjunct1, rule_format]
  note IHo = Suc.IH [THEN conjunct2, THEN conjunct2, rule_format]
  have P: "s \<le> e \<and> e \<le> max s (length json)" if h: "parse (Suc n) json s = Some (v, e)"
    for json s v e
  proof -
    define st where "st = skip_ws json s"
    have st: "s \<le> st" "st \<le> max s (length json)"
      using skip_ws_ge [of s json] skip_ws_le [of json s] by (simp_all add: st_def)
    consider (null) "e = st"
      | (num) "parse_number json st = Some (v, e)"
      | (str) "string_loop json (st + 1) [] = Some (v, e)"
      | (arr) "array_loop n json (st + 1) [] = Some (Some (v, e))"
      | (obj) "object_loop n json (st + 1) [] = Some (Some (v, e))"
      using h unfolding parse.simps st_def [symmetric] Let_def
      by (auto split: if_splits option.splits)
    then show ?thesis
    proof cases
      case null
      with st show ?thesis by simp
    next
      case num
      from parse_number_bounds [OF this] st show ?thesis by auto
    next
      case str
      from string_loop_bounds [OF this] st show ?thesis by auto
    next
      case arr
      from IHa [OF this] st show ?thesis by auto
    next
      case obj
      from IHo [OF this] st show ?thesis by auto
    qed
  qed
  have A: "i < e \<and> e \<le> length json" if h: "array_loop (Suc n) json i res = Some (Some (v, e))"
    for json i res v e
  proof -
    note h = h [unfolded array_loop.simps]
    from h have inb: "i < length json" by (auto split: if_splits)
    show ?thesis
    proof (cases "json ! i = CHR '']''")
      case True
      with h inb show ?thesis by auto
    next
      case False
      with h inb obtain obj "next" where p: "parse n json i = Some (obj, next)"
        and l: "array_loop n json (if at json next = CHR '','' then next + 1 else next) (res @ [obj])
                = Some (Some (v, e))"
        by (auto split: option.splits)
      from IHp [OF p] IHa [OF l] show ?thesis by (auto split: if_splits)
    qed
  qed
  have O: "i < e \<and> e \<le> length json" if h: "object_loop (Suc n) json i res = Some (Some (v, e))"
    for json i res v e
  proof -
    note h = h [unfolded object_loop.simps]
    from h have inb: "i < length json" by (auto split: if_splits)
    show ?thesis
    proof (cases "json ! i = CHR ''}''")
      case True
      with h inb show ?thesis by auto
    next
      case False
      with h inb obtain k ke vo ve res' where p: "parse n json i = Some (k, ke)"
        and q: "parse n json (if at json ke = CHR '':'' then ke + 1 else ke) = Some (vo, ve)"
        and l: "object_loop n json (if at json ve = CHR '','' then ve + 1 else ve) res'
                = Some (Some (v, e))"
        by (auto split: option.splits)
      from IHp [OF p] IHp [OF q] IHo [OF l] show ?thesis by (auto split: if_splits)
    qed
  qed
  from P A O show ?case by blast
qed

lemma fuel_step_all:
  "(\<forall>json s r. parse n json s = Some r \<longrightarrow> parse (Suc n) json s = Some r) \<and>
   (\<forall>json i res r. array_loop n json i res = Some r \<longrightarrow> array_loop (Suc n) json i res = Some r) \<and>
   (\<forall>json i res r. object_loop n json i res = Some r \<longrightarrow> object_loop (Suc n) json i res = Some r)"
proof (induction n)
  case 0
  show ?case by (simp add: parse.simps array_loop.simps object_loop.simps)
next
  case (Suc n)
  note IHp = Suc.IH [THEN conjunct1, rule_format]
  note IHa = Suc.IH [THEN conjunct2, THEN conjunct1, rule_format]
  note IHo = Suc.IH [THEN conjunct2, THEN conjunct2, rule_format]
  have P: "parse (Suc (Suc n)) json s = Some r" if h: "parse (Suc n) json s = Some r" for json s r
  proof -
    define st where "st = skip_ws json s"
    define first where "first = json ! st"
    show ?thesis
    proof (cases "length json \<le> st")
      case True
      with h show ?thesis
        unfolding parse.simps Let_def st_def [symmetric] by simp
    next
      case inb: False
      have nd: "\<not> isdigit first" if "first = CHR ''['' \<or> first = CHR ''{''"
        using that by (auto simp: isdigit_def)
      have arr: "(if first = CHR ''['' then array_loop (Suc n) json (st + 1) [] else Some None)
               = (if first = CHR ''['' then array_loop n json (st + 1) [] else Some None)"
      proof (cases "first = CHR ''[''")
        case True
        have "array_loop n json (st + 1) [] \<noteq> None"
        proof
          assume "array_loop n json (st + 1) [] = None"
          with h True inb nd show False
            unfolding parse.simps Let_def st_def [symmetric] first_def [symmetric]
            by (simp add: dquote_def)
        qed
        then obtain x where "array_loop n json (st + 1) [] = Some x" by blast
        from IHa [OF this] this True show ?thesis by simp
      next
        case False
        then show ?thesis by simp
      qed
      have obj: "(if first = CHR ''{'' then object_loop (Suc n) json (st + 1) [] else Some None)
               = (if first = CHR ''{'' then object_loop n json (st + 1) [] else Some None)"
      proof (cases "first = CHR ''{''")
        case True
        have "object_loop n json (st + 1) [] \<noteq> None"
        proof
          assume "object_loop n json (st + 1) [] = None"
          with h True inb nd show False
            unfolding parse.simps Let_def st_def [symmetric] first_def [symmetric]
            by (simp add: dquote_def)
        qed
        then obtain x where "object_loop n json (st + 1) [] = Some x" by blast
        from IHo [OF this] this True show ?thesis by simp
      next
        case False
        then show ?thesis by simp
      qed
      have "parse (Suc (Suc n)) json s = parse (Suc n) json s"
        unfolding parse.simps(2) [of "Suc n"] parse.simps(2) [of n] Let_def
          st_def [symmetric] first_def [symmetric] arr obj ..
      with h show ?thesis by simp
    qed
  qed
  have A: "array_loop (Suc (Suc n)) json i res = Some r" if h: "array_loop (Suc n) json i res = Some r"
    for json i res r
  proof (cases "i < length json \<and> json ! i \<noteq> CHR '']''")
    case False
    with h show ?thesis by (auto simp: array_loop.simps(2) split: if_splits)
  next
    case True
    with h obtain obj "next" where p: "parse n json i = Some (obj, next)"
      by (cases "parse n json i") (auto simp: array_loop.simps(2))
    with h True have l: "array_loop n json (if at json next = CHR '','' then next + 1 else next)
        (res @ [obj]) = Some r" by (simp add: array_loop.simps(2))
    from True IHp [OF p] IHa [OF l] show ?thesis
      by (simp add: array_loop.simps(2) [of "Suc n"])
  qed
  have O: "object_loop (Suc (Suc n)) json i res = Some r" if h: "object_loop (Suc n) json i res = Some r"
    for json i res r
  proof (cases "i < length json \<and> json ! i \<noteq> CHR ''}''")
    case False
    with h show ?thesis by (auto simp: object_loop.simps(2) split: if_splits)
  next
    case True
    with h obtain k ke where p: "parse n json i = Some (k, ke)"
      by (cases "parse n json i") (auto simp: object_loop.simps(2))
    define j where "j = (if at json ke = CHR '':'' then ke + 1 else ke)"
    from h True p obtain vo ve where q: "parse n json j = Some (vo, ve)"
      by (cases "parse n json j") (auto simp: j_def object_loop.simps(2))
    with h True p have l: "object_loop n json (if at json ve = CHR '','' then ve + 1 else ve)
        (case k of String ks \<Rightarrow> dict_set ks vo res | _ \<Rightarrow> res) = Some r"
      by (simp add: j_def object_loop.simps(2))
    from True IHp [OF p] IHp [OF q] IHo [OF l] show ?thesis
      by (simp add: object_loop.simps(2) [of "Suc n"] j_def)
  qed
  from P A O show ?case by blast
qed

lemma parse_fuel_mono: "parse n json s = Some r \<Longrightarrow> n \<le> m \<Longrightarrow> parse m json s = Some r"
  by (induction m) (auto simp: le_Suc_eq fuel_step_all [THEN conjunct1, rule_format] )

lemma parse_returnsI: "parse n json s = Some r \<Longrightarrow> parse_returns json s r"
  unfolding parse_returns_def by blast

lemma parse_returns_unique:
  assumes "parse_returns json s r" and "parse_returns json s r'"
  shows "r = r'"
proof -
  from assms obtain n m where n: "parse n json s = Some r" and m: "parse m json s = Some r'"
    unfolding parse_returns_def by blast
  from parse_fuel_mono [OF n, of "max n m"] parse_fuel_mono [OF m, of "max n m"]
  show ?thesis by simp
qed

subsection \<open>Parsing behind a prefix\<close>

lemma shift_simp [simp]: "shift k (v, e) = (v, k + e)"
  by (simp add: shift_def)

lemma at_append: "at (p @ s) (length p + i) = at s i"
  by (simp add: at_def)

lemma skip_ws_append: "skip_ws (p @ s) (length p + i) = length p + skip_ws s i"
proof (induction s i rule: skip_ws.induct)
  case (1 s i)
  show ?case
  proof (cases "i < length s \<and> isspace (s ! i)")
    case True
    then have "skip_ws (p @ s) (length p + i) = skip_ws (p @ s) (length p + (i + 1))"
      by (subst skip_ws.simps) (simp add: add.assoc)
    also have "\<dots> = length p + skip_ws s (i + 1)" using 1 True by simp
    also have "skip_ws s (i + 1) = skip_ws s i" using True by (subst (2) skip_ws.simps) simp
    finally show ?thesis .
  next
    case False
    then have "skip_ws (p @ s) (length p + i) = length p + i"
      by (subst skip_ws.simps) auto
    moreover from False have "skip_ws s i = i" by (subst skip_ws.simps) auto
    ultimately show ?thesis by simp
  qed
qed

lemma string_loop_append:
  "string_loop (p @ s) (length p + i) str = map_option (shift (length p)) (string_loop s i str)"
proof (induction s i str rule: string_loop.induct)
  case (1 s i str)
  note L = string_loop.simps [of "p @ s" "length p + i" str]
  note R = string_loop.simps [of s i str]
  show ?case
  proof (cases "i < length s")
    case False
    with L R show ?thesis by simp
  next
    case inb: True
    show ?thesis
    proof (cases "s ! i = backslash")
      case True
      from "1.IH"(1) [OF inb True] inb True show ?thesis
        unfolding L R by (cases "Suc i < length s") (simp_all add: add.assoc nth_append)
    next
      case nb: False
      show ?thesis
      proof (cases "s ! i = dquote")
        case True
        with inb nb show ?thesis unfolding L R by (simp add: nth_append)
      next
        case False
        from "1.IH"(2) [OF inb nb False] inb nb False show ?thesis
          unfolding L R by (simp add: add.assoc nth_append)
      qed
    qed
  qed
qed

lemma parse_number_append:
  "parse_number (p @ s) (length p + i) = map_option (shift (length p)) (parse_number s i)"
  by (simp add: parse_number_def Let_def add.assoc split: option.splits prod.splits)


lemma shift_all:
  "(\<forall>i. parse n (p @ s) (length p + i) = map_option (shift (length p)) (parse n s i)) \<and>
   (\<forall>i res. array_loop n (p @ s) (length p + i) res
      = map_option (map_option (shift (length p))) (array_loop n s i res)) \<and>
   (\<forall>i res. object_loop n (p @ s) (length p + i) res
      = map_option (map_option (shift (length p))) (object_loop n s i res))"
proof (induction n)
  case 0
  show ?case by (simp add: parse.simps array_loop.simps object_loop.simps)
next
  case (Suc n)
  note IHp = Suc.IH [THEN conjunct1, rule_format]
  note IHa = Suc.IH [THEN conjunct2, THEN conjunct1, rule_format]
  note IHo = Suc.IH [THEN conjunct2, THEN conjunct2, rule_format]
  have P: "parse (Suc n) (p @ s) (length p + i) = map_option (shift (length p)) (parse (Suc n) s i)"
    for i
  proof -
    define st where "st = skip_ws s i"
    have sk: "skip_ws (p @ s) (length p + i) = length p + st"
      by (simp add: skip_ws_append st_def)
    have nth: "(p @ s) ! (length p + st) = s ! st" by simp
    have num: "parse_number (p @ s) (length p + st) = map_option (shift (length p)) (parse_number s st)"
      by (rule parse_number_append)
    have str: "string_loop (p @ s) (length p + st + 1) []
        = map_option (shift (length p)) (string_loop s (st + 1) [])"
      using string_loop_append [of p s "st + 1" "[]"] by (simp add: add.assoc)
    have arr: "array_loop n (p @ s) (length p + st + 1) []
        = map_option (map_option (shift (length p))) (array_loop n s (st + 1) [])"
      using IHa [of "st + 1" "[]"] by (simp add: add.assoc)
    have obj: "object_loop n (p @ s) (length p + st + 1) []
        = map_option (map_option (shift (length p))) (object_loop n s (st + 1) [])"
      using IHo [of "st + 1" "[]"] by (simp add: add.assoc)
    show ?thesis
      unfolding parse.simps(2) Let_def sk st_def [symmetric] nth num str arr obj
      by (simp add: dquote_def isdigit_def split: option.splits)
  qed
  have A: "array_loop (Suc n) (p @ s) (length p + i) res
      = map_option (map_option (shift (length p))) (array_loop (Suc n) s i res)" for i res
  proof (cases "parse n s i")
    case None
    with IHp [of i] show ?thesis by (simp add: array_loop.simps(2))
  next
    case (Some r)
    obtain obj nx where r: "r = (obj, nx)" by (cases r)
    define j where "j = (if at s nx = CHR '','' then nx + 1 else nx)"
    have j: "(if at s nx = CHR '','' then length p + nx + 1 else length p + nx) = length p + j"
      by (simp add: j_def)
    have "array_loop n (p @ s) (length p + j) (res @ [obj])
       = map_option (map_option (shift (length p))) (array_loop n s j (res @ [obj]))"
      by (rule IHa)
    with Some r IHp [of i] show ?thesis
      by (simp add: array_loop.simps(2) at_append j j_def [symmetric])
  qed
  have O: "object_loop (Suc n) (p @ s) (length p + i) res
      = map_option (map_option (shift (length p))) (object_loop (Suc n) s i res)" for i res
  proof (cases "parse n s i")
    case None
    with IHp [of i] show ?thesis by (simp add: object_loop.simps(2))
  next
    case (Some r)
    obtain k ke where r: "r = (k, ke)" by (cases r)
    define j where "j = (if at s ke = CHR '':'' then ke + 1 else ke)"
    have j: "(if at s ke = CHR '':'' then length p + ke + 1 else length p + ke) = length p + j"
      by (simp add: j_def)
    have pj: "parse n (p @ s) (length p + j) = map_option (shift (length p)) (parse n s j)"
      by (rule IHp)
    show ?thesis
    proof (cases "parse n s j")
      case None
      with Some r IHp [of i] pj show ?thesis
        by (simp add: object_loop.simps(2) at_append j j_def [symmetric])
    next
      case v: (Some r')
      obtain vo ve where r': "r' = (vo, ve)" by (cases r')
      define j' where "j' = (if at s ve = CHR '','' then ve + 1 else ve)"
      have j': "(if at s ve = CHR '','' then length p + ve + 1 else length p + ve) = length p + j'"
        by (simp add: j'_def)
      have "object_loop n (p @ s) (length p + j')
            (case k of String ks \<Rightarrow> dict_set ks vo res | _ \<Rightarrow> res)
         = map_option (map_option (shift (length p)))
            (object_loop n s j' (case k of String ks \<Rightarrow> dict_set ks vo res | _ \<Rightarrow> res))"
        by (rule IHo)
      with Some r v r' IHp [of i] pj show ?thesis
        by (simp add: object_loop.simps(2) at_append j j_def [symmetric] j' j'_def [symmetric])
    qed
  qed
  from P A O show ?case by blast
qed

subsection \<open>Rules for returning calls\<close>

lemma array_fuel_mono:
  "array_loop n json i res = Some r \<Longrightarrow> n \<le> m \<Longrightarrow> array_loop m json i res = Some r"
  by (induction m) (auto simp: le_Suc_eq fuel_step_all [THEN conjunct2, THEN conjunct1, rule_format])

lemma object_fuel_mono:
  "object_loop n json i res = Some r \<Longrightarrow> n \<le> m \<Longrightarrow> object_loop m json i res = Some r"
  by (induction m) (auto simp: le_Suc_eq fuel_step_all [THEN conjunct2, THEN conjunct2, rule_format])

lemma array_returns_close:
  assumes "i < length json" and "json ! i = CHR '']''"
  shows "array_returns json i res (List res, i + 1)"
proof -
  from assms have "array_loop (Suc 0) json i res = Some (Some (List res, i + 1))"
    by (simp add: array_loop.simps)
  then show ?thesis unfolding array_returns_def by blast
qed

lemma array_returns_step:
  assumes "i < length json" and "json ! i \<noteq> CHR '']''"
    and "parse_returns json i (obj, nx)"
    and "array_returns json (if at json nx = CHR '','' then nx + 1 else nx) (res @ [obj]) r"
  shows "array_returns json i res r"
proof -
  from assms(3) obtain n where n: "parse n json i = Some (obj, nx)"
    unfolding parse_returns_def by blast
  from assms(4) obtain m where m: "array_loop m json (if at json nx = CHR '','' then nx + 1 else nx)
      (res @ [obj]) = Some (Some r)"
    unfolding array_returns_def by blast
  from parse_fuel_mono [OF n, of "max n m"] array_fuel_mono [OF m, of "max n m"] assms(1,2)
  have "array_loop (Suc (max n m)) json i res = Some (Some r)"
    by (simp add: array_loop.simps(2))
  then show ?thesis unfolding array_returns_def by blast
qed

lemma object_returns_close:
  assumes "i < length json" and "json ! i = CHR ''}''"
  shows "object_returns json i res (Dict res, i + 1)"
proof -
  from assms have "object_loop (Suc 0) json i res = Some (Some (Dict res, i + 1))"
    by (simp add: object_loop.simps)
  then show ?thesis unfolding object_returns_def by blast
qed

lemma object_returns_step:
  assumes "i < length json" and "json ! i \<noteq> CHR ''}''"
    and "parse_returns json i (String k, ke)"
    and "parse_returns json (if at json ke = CHR '':'' then ke + 1 else ke) (v, ve)"
    and "object_returns json (if at json ve = CHR '','' then ve + 1 else ve) (dict_set k v res) r"
  shows "object_returns json i res r"
proof -
  from assms(3) obtain n1 where n1: "parse n1 json i = Some (String k, ke)"
    unfolding parse_returns_def by blast
  from assms(4) obtain n2 where n2:
    "parse n2 json (if at json ke = CHR '':'' then ke + 1 else ke) = Some (v, ve)"
    unfolding parse_returns_def by blast
  from assms(5) obtain n3 where n3:
    "object_loop n3 json (if at json ve = CHR '','' then ve + 1 else ve) (dict_set k v res) = Some (Some r)"
    unfolding object_returns_def by blast
  define m where "m = max n1 (max n2 n3)"
  from parse_fuel_mono [OF n1, of m] parse_fuel_mono [OF n2, of m] object_fuel_mono [OF n3, of m]
    assms(1,2)
  have "object_loop (Suc m) json i res = Some (Some r)"
    by (simp add: object_loop.simps(2) m_def)
  then show ?thesis unfolding object_returns_def by blast
qed

lemma parse_returns_array:
  assumes "skip_ws json s < length json" and "json ! skip_ws json s = CHR ''[''"
    and "array_returns json (skip_ws json s + 1) [] r"
  shows "parse_returns json s r"
proof -
  from assms(3) obtain n where "array_loop n json (skip_ws json s + 1) [] = Some (Some r)"
    unfolding array_returns_def by blast
  with assms(1,2) have "parse (Suc n) json s = Some r"
    by (simp add: parse.simps(2) Let_def isdigit_def dquote_def)
  then show ?thesis by (rule parse_returnsI)
qed

lemma parse_returns_object:
  assumes "skip_ws json s < length json" and "json ! skip_ws json s = CHR ''{''"
    and "object_returns json (skip_ws json s + 1) [] r"
  shows "parse_returns json s r"
proof -
  from assms(3) obtain n where "object_loop n json (skip_ws json s + 1) [] = Some (Some r)"
    unfolding object_returns_def by blast
  with assms(1,2) have "parse (Suc n) json s = Some r"
    by (simp add: parse.simps(2) Let_def isdigit_def dquote_def)
  then show ?thesis by (rule parse_returnsI)
qed

lemma parse_returns_shift:
  assumes "parse_returns s i (v, e)"
  shows "parse_returns (p @ s) (length p + i) (v, length p + e)"
proof -
  from assms obtain n where "parse n s i = Some (v, e)" unfolding parse_returns_def by blast
  then have "parse n (p @ s) (length p + i) = Some (v, length p + e)"
    by (simp add: shift_all [THEN conjunct1, rule_format])
  then show ?thesis by (rule parse_returnsI)
qed

lemma array_returns_shift:
  assumes "array_returns s i res (v, e)"
  shows "array_returns (p @ s) (length p + i) res (v, length p + e)"
proof -
  from assms obtain n where "array_loop n s i res = Some (Some (v, e))"
    unfolding array_returns_def by blast
  then have "array_loop n (p @ s) (length p + i) res = Some (Some (v, length p + e))"
    by (simp add: shift_all [THEN conjunct2, THEN conjunct1, rule_format])
  then show ?thesis unfolding array_returns_def by blast
qed

lemma object_returns_shift:
  assumes "object_returns s i res (v, e)"
  shows "object_returns (p @ s) (length p + i) res (v, length p + e)"
proof -
  from assms obtain n where "object_loop n s i res = Some (Some (v, e))"
    unfolding object_returns_def by blast
  then have "object_loop n (p @ s) (length p + i) res = Some (Some (v, length p + e))"
    by (simp add: shift_all [THEN conjunct2, THEN conjunct2, rule_format])
  then show ?thesis unfolding object_returns_def by blast
qed

lemma skip_ws_idem: "skip_ws json (skip_ws json i) = skip_ws json i"
proof (cases "skip_ws json i < length json")
  case True
  from skip_ws_stop [OF True] True show ?thesis by (rule skip_ws_nonspace [rotated])
next
  case False
  then show ?thesis by (simp add: skip_ws_past)
qed

lemma parse_skip: "parse n json (skip_ws json i) = parse n json i"
  by (cases n) (simp_all add: parse.simps Let_def skip_ws_idem)

lemma skip_ws_spaces: "\<forall>c\<in>set w. isspace c \<Longrightarrow> skip_ws (w @ s) 0 = length w + skip_ws s 0"
proof (induction w)
  case Nil
  show ?case by simp
next
  case (Cons c w)
  have "skip_ws ((c # w) @ s) 0 = skip_ws (c # w @ s) 1"
    using Cons.prems by (subst skip_ws.simps) simp
  also have "\<dots> = 1 + skip_ws (w @ s) 0"
    using skip_ws_append [of "[c]" "w @ s" 0] by simp
  finally show ?case using Cons by simp
qed

lemma parse_returns_spaces:
  assumes "\<forall>c\<in>set w. isspace c" and "parse_returns s 0 (v, e)"
  shows "parse_returns (w @ s) 0 (v, length w + e)"
proof -
  from assms(2) obtain n where n: "parse n s 0 = Some (v, e)" unfolding parse_returns_def by blast
  have "parse n (w @ s) 0 = parse n (w @ s) (skip_ws (w @ s) 0)" by (simp add: parse_skip)
  also have "\<dots> = parse n (w @ s) (length w + skip_ws s 0)"
    using assms(1) by (simp add: skip_ws_spaces)
  also have "\<dots> = map_option (shift (length w)) (parse n s (skip_ws s 0))"
    by (simp add: shift_all [THEN conjunct1, rule_format])
  also have "\<dots> = Some (v, length w + e)" using n by (simp add: parse_skip)
  finally show ?thesis by (rule parse_returnsI)
qed

subsection \<open>Reading back printed scalars\<close>

lemma digit_char_cases:
  assumes "d < 10"
  shows "isdigit (digit_char d) \<and> digit_val (digit_char d) = int d"
proof -
  from assms consider "d = 0" | "d = 1" | "d = 2" | "d = 3" | "d = 4" | "d = 5" | "d = 6"
    | "d = 7" | "d = 8" | "d = 9" by (auto simp: less_Suc_eq numeral_eq_Suc)
  then show ?thesis
    by cases (simp_all add: digit_char_def isdigit_def digit_val_def)
qed

lemma show_nat_digits: "show_nat n \<noteq> [] \<and> (\<forall>c\<in>set (show_nat n). isdigit c)"
proof (induction n rule: show_nat.induct)
  case (1 n)
  show ?case
  proof (cases "n < 10")
    case True
    then show ?thesis by (subst show_nat.simps, subst (2) show_nat.simps) (simp add: digit_char_cases)
  next
    case False
    with 1 have "show_nat (n div 10) \<noteq> [] \<and> (\<forall>c\<in>set (show_nat (n div 10)). isdigit c)" by simp
    moreover have "isdigit (digit_char (n mod 10))" by (simp add: digit_char_cases)
    moreover have "show_nat n = show_nat (n div 10) @ [digit_char (n mod 10)]"
      using False by (subst show_nat.simps) simp
    ultimately show ?thesis by auto
  qed
qed

lemma dec_val_snoc: "dec_val (ds @ [c]) = 10 * dec_val ds + digit_val c"
  by (simp add: dec_val_def)

lemma dec_val_show_nat: "dec_val (show_nat n) = int n"
proof (induction n rule: show_nat.induct)
  case (1 n)
  show ?case
  proof (cases "n < 10")
    case True
    then have "show_nat n = [digit_char n]" by (subst show_nat.simps) simp
    with True show ?thesis by (simp add: dec_val_def digit_char_cases)
  next
    case False
    then have "show_nat n = show_nat (n div 10) @ [digit_char (n mod 10)]"
      by (subst show_nat.simps) simp
    moreover have "10 * int (n div 10) + int (n mod 10) = int n"
      by presburger
    ultimately show ?thesis using 1 False
      by (simp add: dec_val_snoc digit_char_cases)
  qed
qed

lemma digit_not_sign: "isdigit c \<Longrightarrow> \<not> is_sign c"
  by (auto simp: isdigit_def is_sign_def)

lemma digit_not_space: "isdigit c \<Longrightarrow> \<not> isspace c"
  by (auto simp: isdigit_def isspace_def)

lemma delimited_stop:
  assumes "delimited r"
  shows "takeWhile isdigit r = []" and "dropWhile isdigit r = r"
    and "frac_part r = []" and "exponent_part r = []"
proof -
  have "r = [] \<or> (\<exists>c t. r = c # t \<and> \<not> isdigit c \<and> c \<noteq> CHR ''.''
      \<and> c \<noteq> CHR ''e'' \<and> c \<noteq> CHR ''E'')"
  proof (cases r)
    case (Cons c t)
    with assms have "c = CHR '','' \<or> c = CHR '']'' \<or> c = CHR ''}''"
      by (simp add: delimited_def)
    then have "\<not> isdigit c \<and> c \<noteq> CHR ''.'' \<and> c \<noteq> CHR ''e'' \<and> c \<noteq> CHR ''E''"
      by (auto simp: isdigit_def)
    with Cons show ?thesis by simp
  qed simp
  then show "takeWhile isdigit r = []" and "dropWhile isdigit r = r"
    and "frac_part r = []" and "exponent_part r = []"
    by (auto simp: frac_part_def exponent_part_def)
qed

lemma minus_not_space: "\<not> isspace CHR ''-''"
  by (simp add: isspace_def)

lemma integer_head:
  assumes "ds \<noteq> []" and "\<forall>c\<in>set ds. isdigit c" and "sg = [] \<or> sg = ''-''"
  obtains c t where "sg @ ds = c # t" and "\<not> isspace c" and "isdigit c \<or> c = CHR ''-''"
proof (cases "sg = []")
  case True
  from assms(1) obtain c t where "ds = c # t" by (cases ds) auto
  with assms(2) True that [of c t] show ?thesis by (simp add: digit_not_space)
next
  case False
  with assms(3) that [of "CHR ''-''" ds] show ?thesis by (simp add: minus_not_space)
qed

lemma takeWhile_all: "\<forall>c\<in>set ds. P c \<Longrightarrow> takeWhile P r = [] \<Longrightarrow> takeWhile P (ds @ r) = ds"
  by (simp add: takeWhile_append2)

lemma dropWhile_all: "\<forall>c\<in>set ds. P c \<Longrightarrow> dropWhile P (ds @ r) = dropWhile P r"
  by (simp add: dropWhile_append2)

lemma opt_sign_digits:
  assumes "ds \<noteq> []" and "\<forall>c\<in>set ds. isdigit c"
  shows "opt_sign (ds @ r) = []" and "opt_sign (CHR ''-'' # ds @ r) = ''-''"
proof -
  from assms obtain c t where "ds = c # t" and "\<not> is_sign c"
    by (cases ds) (auto simp: digit_not_sign)
  then show "opt_sign (ds @ r) = []" by (simp add: opt_sign_def)
  show "opt_sign (CHR ''-'' # ds @ r) = ''-''" by (simp add: opt_sign_def is_sign_def)
qed

lemma num_re_match_integer:
  assumes ds: "ds \<noteq> []" "\<forall>c\<in>set ds. isdigit c" and r: "delimited r"
    and sg: "sg = [] \<or> sg = ''-''"
  shows "num_re_match (sg @ ds @ r) = Some (sg @ ds)"
proof -
  have os: "opt_sign (sg @ ds @ r) = sg"
    using sg opt_sign_digits [OF ds, of r] by auto
  have tw: "takeWhile isdigit (ds @ r) = ds"
    using ds(2) delimited_stop(1) [OF r] by (rule takeWhile_all)
  have dw: "dropWhile isdigit (ds @ r) = r"
    using dropWhile_all [of ds isdigit r] ds(2) delimited_stop(2) [OF r] by simp
  show ?thesis
    unfolding num_re_match_def Let_def os
    by (simp add: tw dw delimited_stop [OF r] ds)
qed

lemma strtol_integer:
  assumes ds: "ds \<noteq> []" "\<forall>c\<in>set ds. isdigit c" and sg: "sg = [] \<or> sg = ''-''"
  shows "strtol (sg @ ds) =
    (max LONG_MIN (min LONG_MAX (if sg = ''-'' then - dec_val ds else dec_val ds)), [])"
proof -
  have sp: "dropWhile isspace (sg @ ds) = sg @ ds"
    using integer_head [OF ds sg] by (metis dropWhile.simps(2))
  have os: "opt_sign (sg @ ds) = sg"
    using sg opt_sign_digits [OF ds, of "[]"] by auto
  have tw: "takeWhile isdigit ds = ds" using ds(2) by simp
  have dw: "dropWhile isdigit ds = []" using ds(2) by simp
  show ?thesis
    unfolding strtol_def Let_def sp os
    by (simp add: tw dw ds)
qed

lemma regex_search_hit: "num_re_match s = Some m \<Longrightarrow> regex_search s = Some m"
  by (cases s) (simp_all add: num_re_match_def opt_sign_def)

lemma parse_number_integer:
  assumes ds: "ds \<noteq> []" "\<forall>c\<in>set ds. isdigit c" and r: "delimited r"
    and sg: "sg = [] \<or> sg = ''-''"
  shows "parse_number (sg @ ds @ r) 0 =
    Some (Int32 (word_of_int (max LONG_MIN (min LONG_MAX (if sg = ''-'' then - dec_val ds else dec_val ds)))),
          length (sg @ ds))"
proof -
  have "regex_search (sg @ ds @ r) = Some (sg @ ds)"
    by (rule regex_search_hit) (rule num_re_match_integer [OF ds r sg])
  then show ?thesis
    by (simp add: parse_number_def try_parse_int_def strtol_integer [OF ds sg] at_nul_def)
qed

lemma parse_show_int:
  assumes "LONG_MIN \<le> i" and "i \<le> LONG_MAX" and r: "delimited r"
  shows "parse (Suc n) (show_int i @ r) 0 = Some (Int32 (word_of_int i), length (show_int i))"
proof -
  define sg where "sg = (if i < 0 then ''-'' else [])"
  define ds where "ds = show_nat (nat \<bar>i\<bar>)"
  have si: "show_int i = sg @ ds"
    by (auto simp: show_int_def sg_def ds_def)
  have ds: "ds \<noteq> []" "\<forall>c\<in>set ds. isdigit c"
    using show_nat_digits [of "nat \<bar>i\<bar>"] by (simp_all add: ds_def)
  have sg: "sg = [] \<or> sg = ''-''" by (simp add: sg_def)
  have val: "(if sg = ''-'' then - dec_val ds else dec_val ds) = i"
    by (auto simp: sg_def ds_def dec_val_show_nat)
  have num: "parse_number (show_int i @ r) 0 = Some (Int32 (word_of_int i), length (show_int i))"
    using parse_number_integer [OF ds r sg] assms(1,2) unfolding val si by simp
  obtain c t where ct: "sg @ ds = c # t" and nsp: "\<not> isspace c"
    and c: "isdigit c \<or> c = CHR ''-''"
    using integer_head [OF ds sg] by blast
  have hd: "(show_int i @ r) ! 0 = c" "0 < length (show_int i @ r)"
    unfolding si using ct by simp_all
  have sk: "skip_ws (show_int i @ r) 0 = 0"
    using hd nsp by (simp add: skip_ws_nonspace)
  show ?thesis
    unfolding parse.simps(2) Let_def sk hd(1)
    using num c hd(2) by auto
qed

lemma string_loop_plain:
  assumes "plain s"
  shows "string_loop (p @ s @ dquote # r) (length p) acc
         = Some (String (acc @ s), length p + length s + 1)"
  using assms
proof (induction s arbitrary: p acc)
  case Nil
  show ?case by (subst string_loop.simps) (simp add: dquote_def backslash_def)
next
  case (Cons c s)
  from Cons.prems have c: "c \<noteq> dquote" "c \<noteq> backslash" and s: "plain s"
    by (auto simp: plain_def)
  have "string_loop (p @ (c # s) @ dquote # r) (length p) acc
      = string_loop ((p @ [c]) @ s @ dquote # r) (length (p @ [c])) (acc @ [c])"
    using c by (subst string_loop.simps) simp
  also have "\<dots> = Some (String ((acc @ [c]) @ s), length (p @ [c]) + length s + 1)"
    by (rule Cons.IH [OF s])
  finally show ?case by simp
qed

lemma parse_show_string:
  assumes "plain s"
  shows "parse (Suc n) (dquote # s @ dquote # r) 0 = Some (String s, length s + 2)"
proof -
  have sk: "skip_ws (dquote # s @ dquote # r) 0 = 0"
    by (simp add: skip_ws_nonspace isspace_def dquote_def)
  have "string_loop ([dquote] @ s @ dquote # r) (length [dquote]) [] = Some (String ([] @ s), length [dquote] + length s + 1)"
    using assms by (rule string_loop_plain)
  then have sl: "string_loop (dquote # s @ dquote # r) (Suc 0) [] = Some (String s, length s + 2)"
    by simp
  show ?thesis
    unfolding parse.simps(2) Let_def sk
    by (simp add: sl isdigit_def dquote_def [symmetric]) (simp add: dquote_def)
qed

subsection \<open>The tag of a numeric literal\<close>

text \<open>
  When \<open>num_re\<close> matches at the cursor, \<open>strtod\<close> always converts the whole match,
  and \<open>strtol\<close> does so exactly when the match is an integer text. So the number
  branch returns \<open>Int\<close> for an integer text, whatever its magnitude, and \<open>Double\<close>
  otherwise, and the cursor moves by the length of the match.
\<close>

lemma opt_sign_cases: "opt_sign s = [] \<or> (\<exists>c. opt_sign s = [c] \<and> is_sign c)"
  by (cases s) (simp_all add: opt_sign_def)

lemma takeWhile_digits: "\<forall>c\<in>set (takeWhile isdigit s). isdigit c"
  by (auto dest: set_takeWhileD)

lemma frac_part_cases:
  "frac_part s = [] \<or> (\<exists>ds. frac_part s = CHR ''.'' # ds \<and> (\<forall>c\<in>set ds. isdigit c))"
  by (cases s) (auto simp: frac_part_def dest: set_takeWhileD)

lemma exponent_part_cases:
  "exponent_part s = [] \<or>
   (\<exists>e sg ds. exponent_part s = e # sg @ ds \<and> (e = CHR ''e'' \<or> e = CHR ''E'')
      \<and> (sg = [] \<or> (\<exists>c. sg = [c] \<and> is_sign c)) \<and> ds \<noteq> [] \<and> (\<forall>c\<in>set ds. isdigit c))"
proof (cases s)
  case Nil
  then show ?thesis by (simp add: exponent_part_def)
next
  case (Cons e t)
  show ?thesis
  proof (cases "exponent_part s = []")
    case True
    then show ?thesis by simp
  next
    case False
    with Cons have e: "e = CHR ''e'' \<or> e = CHR ''E''"
      and ds: "takeWhile isdigit (drop (length (opt_sign t)) t) \<noteq> []"
      and ep: "exponent_part s = e # opt_sign t @ takeWhile isdigit (drop (length (opt_sign t)) t)"
      by (auto simp: exponent_part_def Let_def split: if_splits)
    with opt_sign_cases [of t] takeWhile_digits show ?thesis by blast
  qed
qed


lemma sign_not_digit: "is_sign c \<Longrightarrow> \<not> isdigit c"
  by (auto simp: is_sign_def isdigit_def)

lemma sign_not_space: "is_sign c \<Longrightarrow> \<not> isspace c"
  by (auto simp: is_sign_def isspace_def)

lemma digit_not_mark: "isdigit c \<Longrightarrow> c \<noteq> CHR ''.'' \<and> c \<noteq> CHR ''e'' \<and> c \<noteq> CHR ''E'' \<and> c \<noteq> CHR 0x00"
  by (auto simp: isdigit_def)

lemma sign_not_mark: "is_sign c \<Longrightarrow> c \<noteq> CHR ''.'' \<and> c \<noteq> CHR ''e'' \<and> c \<noteq> CHR ''E''"
  by (auto simp: is_sign_def)

text \<open>The shape of a match of \<open>num_re\<close>.\<close>

lemma num_re_match_shape:
  assumes "num_re_match s = Some m"
  obtains sg ip fp ep where "m = sg @ ip @ fp @ ep"
    and "sg = [] \<or> (\<exists>c. sg = [c] \<and> is_sign c)"
    and "ip \<noteq> []" and "\<forall>c\<in>set ip. isdigit c"
    and "fp = [] \<or> (\<exists>ds. fp = CHR ''.'' # ds \<and> (\<forall>c\<in>set ds. isdigit c))"
    and "ep = [] \<or> (\<exists>e sg' ds. ep = e # sg' @ ds \<and> (e = CHR ''e'' \<or> e = CHR ''E'')
            \<and> (sg' = [] \<or> (\<exists>c. sg' = [c] \<and> is_sign c)) \<and> ds \<noteq> [] \<and> (\<forall>c\<in>set ds. isdigit c))"
proof -
  define sg where "sg = opt_sign s"
  define s2 where "s2 = drop (length sg) s"
  define ip where "ip = takeWhile isdigit s2"
  define s3 where "s3 = dropWhile isdigit s2"
  define fp where "fp = frac_part s3"
  define ep where "ep = exponent_part (drop (length fp) s3)"
  from assms have m: "m = sg @ ip @ fp @ ep" and ne: "ip \<noteq> []"
    by (auto simp: num_re_match_def Let_def sg_def s2_def ip_def s3_def fp_def ep_def
        split: if_splits)
  note m
  moreover have "sg = [] \<or> (\<exists>c. sg = [c] \<and> is_sign c)"
    unfolding sg_def by (rule opt_sign_cases)
  moreover note ne
  moreover have "\<forall>c\<in>set ip. isdigit c" unfolding ip_def by (rule takeWhile_digits)
  moreover have "fp = [] \<or> (\<exists>ds. fp = CHR ''.'' # ds \<and> (\<forall>c\<in>set ds. isdigit c))"
    unfolding fp_def by (rule frac_part_cases)
  moreover have "ep = [] \<or> (\<exists>e sg' ds. ep = e # sg' @ ds \<and> (e = CHR ''e'' \<or> e = CHR ''E'')
            \<and> (sg' = [] \<or> (\<exists>c. sg' = [c] \<and> is_sign c)) \<and> ds \<noteq> [] \<and> (\<forall>c\<in>set ds. isdigit c))"
    unfolding ep_def by (rule exponent_part_cases)
  ultimately show ?thesis by (rule that)
qed

lemma opt_sign_shape:
  assumes "sg = [] \<or> (\<exists>c. sg = [c] \<and> is_sign c)" and "ip \<noteq> []" and "\<forall>c\<in>set ip. isdigit c"
  shows "opt_sign (sg @ ip @ r) = sg"
proof (cases "sg = []")
  case True
  from assms(2,3) obtain c t where "ip = c # t" and "\<not> is_sign c"
    by (cases ip) (auto simp: digit_not_sign)
  with True show ?thesis by (simp add: opt_sign_def)
next
  case False
  with assms(1) show ?thesis by (auto simp: opt_sign_def)
qed

lemma no_space_shape:
  assumes "sg = [] \<or> (\<exists>c. sg = [c] \<and> is_sign c)" and "ip \<noteq> []" and "\<forall>c\<in>set ip. isdigit c"
  shows "dropWhile isspace (sg @ ip @ r) = sg @ ip @ r"
proof (cases "sg = []")
  case True
  from assms(2,3) obtain c t where "ip = c # t" and "\<not> isspace c"
    by (cases ip) (auto simp: digit_not_space)
  with True show ?thesis by simp
next
  case False
  with assms(1) show ?thesis by (auto simp: sign_not_space)
qed

lemma digits_then_stop:
  assumes "\<forall>c\<in>set ip. isdigit c" and "r = [] \<or> \<not> isdigit (hd r)"
  shows "takeWhile isdigit (ip @ r) = ip" and "dropWhile isdigit (ip @ r) = r"
proof -
  from assms(2) have "takeWhile isdigit r = []" "dropWhile isdigit r = r"
    by (cases r; auto)+
  with assms(1) show "takeWhile isdigit (ip @ r) = ip" "dropWhile isdigit (ip @ r) = r"
    by (simp_all add: takeWhile_append2 dropWhile_append2)
qed


lemma mark_not_digit:
  "c = CHR ''.'' \<or> c = CHR ''e'' \<or> c = CHR ''E'' \<Longrightarrow> \<not> isdigit c \<and> c \<noteq> CHR 0x00"
  by (auto simp: isdigit_def)

lemma shape_tail_stop:
  assumes "fp = [] \<or> (\<exists>ds. fp = CHR ''.'' # ds \<and> (\<forall>c\<in>set ds. isdigit c))"
    and "ep = [] \<or> (\<exists>e sg' ds. ep = e # sg' @ ds \<and> (e = CHR ''e'' \<or> e = CHR ''E'')
            \<and> (sg' = [] \<or> (\<exists>c. sg' = [c] \<and> is_sign c)) \<and> ds \<noteq> [] \<and> (\<forall>c\<in>set ds. isdigit c))"
  shows "fp @ ep = [] \<or> \<not> isdigit (hd (fp @ ep))" and "ep = [] \<or> \<not> isdigit (hd ep)"
    and "at_nul (fp @ ep) \<longleftrightarrow> fp = [] \<and> ep = []"
proof -
  from assms(1) have f: "fp = [] \<or> hd fp = CHR ''.''" by auto
  from assms(2) have e: "ep = [] \<or> hd ep = CHR ''e'' \<or> hd ep = CHR ''E''" by auto
  have h: "fp @ ep = [] \<or> hd (fp @ ep) = CHR ''.'' \<or> hd (fp @ ep) = CHR ''e''
      \<or> hd (fp @ ep) = CHR ''E''"
    using f e by (cases "fp = []") auto
  then show "fp @ ep = [] \<or> \<not> isdigit (hd (fp @ ep))"
    using mark_not_digit [of "hd (fp @ ep)"] by blast
  from e show "ep = [] \<or> \<not> isdigit (hd ep)"
    using mark_not_digit [of "hd ep"] by blast
  from h show "at_nul (fp @ ep) \<longleftrightarrow> fp = [] \<and> ep = []"
    using mark_not_digit [of "hd (fp @ ep)"] unfolding at_nul_def by auto
qed

lemma strtol_shape:
  assumes sg: "sg = [] \<or> (\<exists>c. sg = [c] \<and> is_sign c)" and ip: "ip \<noteq> []" "\<forall>c\<in>set ip. isdigit c"
    and r: "r = [] \<or> \<not> isdigit (hd r)"
  shows "strtol (sg @ ip @ r)
    = (max LONG_MIN (min LONG_MAX (if sg = ''-'' then - dec_val ip else dec_val ip)), r)"
  unfolding strtol_def Let_def no_space_shape [OF sg ip] opt_sign_shape [OF sg ip]
  using ip(1) by (simp add: digits_then_stop [OF ip(2) r])

lemma frac_part_shape:
  assumes "fp = [] \<or> (\<exists>ds. fp = CHR ''.'' # ds \<and> (\<forall>c\<in>set ds. isdigit c))"
    and "ep = [] \<or> \<not> isdigit (hd ep)" and "ep = [] \<or> hd ep \<noteq> CHR ''.''"
  shows "frac_part (fp @ ep) = fp"
proof (cases "fp = []")
  case True
  with assms(3) show ?thesis by (cases ep) (simp_all add: frac_part_def)
next
  case False
  with assms(1) obtain ds where fp: "fp = CHR ''.'' # ds" and ds: "\<forall>c\<in>set ds. isdigit c"
    by blast
  show ?thesis
    unfolding fp by (simp add: frac_part_def digits_then_stop(1) [OF ds assms(2)])
qed

lemma exponent_part_shape:
  assumes "ep = [] \<or> (\<exists>e sg' ds. ep = e # sg' @ ds \<and> (e = CHR ''e'' \<or> e = CHR ''E'')
            \<and> (sg' = [] \<or> (\<exists>c. sg' = [c] \<and> is_sign c)) \<and> ds \<noteq> [] \<and> (\<forall>c\<in>set ds. isdigit c))"
  shows "exponent_part ep = ep"
proof (cases "ep = []")
  case True
  then show ?thesis by (simp add: exponent_part_def)
next
  case False
  with assms obtain e sg' ds where ep: "ep = e # sg' @ ds" and e: "e = CHR ''e'' \<or> e = CHR ''E''"
    and sg': "sg' = [] \<or> (\<exists>c. sg' = [c] \<and> is_sign c)" and ds: "ds \<noteq> []" "\<forall>c\<in>set ds. isdigit c"
    by blast
  have os: "opt_sign (sg' @ ds) = sg'"
    using opt_sign_shape [OF sg' ds, of "[]"] by simp
  have tw: "takeWhile isdigit ds = ds" using ds(2) by simp
  show ?thesis
    unfolding ep exponent_part_def using e ds(1) by (auto simp: os tw Let_def)
qed

lemma strtod_shape:
  assumes sg: "sg = [] \<or> (\<exists>c. sg = [c] \<and> is_sign c)" and ip: "ip \<noteq> []" "\<forall>c\<in>set ip. isdigit c"
    and fp: "fp = [] \<or> (\<exists>ds. fp = CHR ''.'' # ds \<and> (\<forall>c\<in>set ds. isdigit c))"
    and ep: "ep = [] \<or> (\<exists>e sg' ds. ep = e # sg' @ ds \<and> (e = CHR ''e'' \<or> e = CHR ''E'')
            \<and> (sg' = [] \<or> (\<exists>c. sg' = [c] \<and> is_sign c)) \<and> ds \<noteq> [] \<and> (\<forall>c\<in>set ds. isdigit c))"
  shows "strtod (sg @ ip @ fp @ ep) = (sg @ ip @ fp @ ep, [])"
proof -
  have ep': "ep = [] \<or> hd ep \<noteq> CHR ''.''" using ep by auto
  have 1: "takeWhile isdigit (ip @ fp @ ep) = ip" "dropWhile isdigit (ip @ fp @ ep) = fp @ ep"
    using digits_then_stop [OF ip(2) shape_tail_stop(1) [OF fp ep]] by simp_all
  have 2: "frac_part (fp @ ep) = fp"
    by (rule frac_part_shape [OF fp shape_tail_stop(2) [OF fp ep] ep'])
  show ?thesis
    unfolding strtod_def Let_def no_space_shape [OF sg ip] opt_sign_shape [OF sg ip]
    using ip(1) by (simp add: 1 2 exponent_part_shape [OF ep])
qed

lemma integer_text_shape:
  assumes sg: "sg = [] \<or> (\<exists>c. sg = [c] \<and> is_sign c)" and ip: "\<forall>c\<in>set ip. isdigit c"
    and fp: "fp = [] \<or> (\<exists>ds. fp = CHR ''.'' # ds \<and> (\<forall>c\<in>set ds. isdigit c))"
    and ep: "ep = [] \<or> (\<exists>e sg' ds. ep = e # sg' @ ds \<and> (e = CHR ''e'' \<or> e = CHR ''E'')
            \<and> (sg' = [] \<or> (\<exists>c. sg' = [c] \<and> is_sign c)) \<and> ds \<noteq> [] \<and> (\<forall>c\<in>set ds. isdigit c))"
  shows "integer_text (sg @ ip @ fp @ ep) \<longleftrightarrow> fp = [] \<and> ep = []"
proof
  assume "integer_text (sg @ ip @ fp @ ep)"
  then have "CHR ''.'' \<notin> set fp" "CHR ''e'' \<notin> set ep" "CHR ''E'' \<notin> set ep"
    by (simp_all add: integer_text_def)
  with fp ep show "fp = [] \<and> ep = []" by auto
next
  assume "fp = [] \<and> ep = []"
  moreover have "c \<noteq> CHR ''.'' \<and> c \<noteq> CHR ''e'' \<and> c \<noteq> CHR ''E''" if "c \<in> set (sg @ ip)" for c
  proof (cases "c \<in> set ip")
    case True
    with ip have "isdigit c" by blast
    then show ?thesis using digit_not_mark [of c] by blast
  next
    case False
    with that sg have "is_sign c" by auto
    then show ?thesis by (rule sign_not_mark)
  qed
  ultimately show "integer_text (sg @ ip @ fp @ ep)"
    unfolding integer_text_def by (metis append_Nil2 append_assoc)
qed

lemma number_literal_tag:
  assumes "num_re_match (drop (skip_ws json start) json) = Some str"
  shows "parse (Suc n) json start =
           Some (if integer_text str then Int32 (word_of_int (fst (strtol str))) else Double str,
                 skip_ws json start + length str)"
proof -
  define s where "s = skip_ws json start"
  note m = assms [folded s_def]
  from num_re_match_shape [OF m] obtain sg ip fp ep where str: "str = sg @ ip @ fp @ ep"
    and sg: "sg = [] \<or> (\<exists>c. sg = [c] \<and> is_sign c)"
    and ip: "ip \<noteq> []" "\<forall>c\<in>set ip. isdigit c"
    and fp: "fp = [] \<or> (\<exists>ds. fp = CHR ''.'' # ds \<and> (\<forall>c\<in>set ds. isdigit c))"
    and ep: "ep = [] \<or> (\<exists>e sg' ds. ep = e # sg' @ ds \<and> (e = CHR ''e'' \<or> e = CHR ''E'')
            \<and> (sg' = [] \<or> (\<exists>c. sg' = [c] \<and> is_sign c)) \<and> ds \<noteq> [] \<and> (\<forall>c\<in>set ds. isdigit c))"
    by blast
  obtain c t where ct: "str = c # t" and c: "isdigit c \<or> is_sign c"
    using sg ip unfolding str by (cases ip) auto
  from num_re_match_prefix [OF m] ct have d: "drop s json = c # t @ drop (length str) (drop s json)"
    by simp
  then have inb: "s < length json" by (cases "s < length json") auto
  with d have first: "json ! s = c" by (metis nth_via_drop)
  have tl: "strtol str = (fst (strtol str), fp @ ep)"
    unfolding str using strtol_shape [OF sg ip shape_tail_stop(1) [OF fp ep]] by simp
  have ti: "try_parse_int str = (fp = [] \<and> ep = [], word_of_int (fst (strtol str)))"
    unfolding try_parse_int_def by (subst tl) (simp add: shape_tail_stop(3) [OF fp ep])
  have td: "try_parse_double str = (True, str)"
    unfolding try_parse_double_def str strtod_shape [OF sg ip fp ep] by (simp add: at_nul_def)
  have it: "integer_text str \<longleftrightarrow> fp = [] \<and> ep = []"
    unfolding str by (rule integer_text_shape [OF sg ip(2) fp ep])
  have rs: "regex_search (drop s json) = Some str"
    using m by (rule regex_search_hit)
  have num: "parse_number json s =
      Some (if integer_text str then Int32 (word_of_int (fst (strtol str))) else Double str,
            s + length str)"
    unfolding parse_number_def rs by (simp add: ti td it)
  show ?thesis
    unfolding parse.simps(2) Let_def s_def [symmetric] first
    using inb c num by (auto simp: is_sign_def)
qed

subsection \<open>Reading back printed lists and dictionaries\<close>

lemma parse_returns_not_closing:
  assumes "parse_returns json i (obj, nx)" and "obj \<noteq> Null" and "i < length json"
  shows "json ! i \<noteq> CHR '']'' \<and> json ! i \<noteq> CHR ''}''"
proof (rule ccontr)
  assume "\<not> ?thesis"
  then have c: "json ! i = CHR '']'' \<or> json ! i = CHR ''}''" by blast
  then have "\<not> isspace (json ! i)" by (auto simp: isspace_def)
  with assms(3) have sk: "skip_ws json i = i" by (simp add: skip_ws_nonspace)
  have "parse (Suc 0) json i = Some (Null, skip_ws json i)"
    by (rule parse_fallback) (use c assms(3) in \<open>auto simp: sk isdigit_def dquote_def\<close>)
  then have "parse_returns json i (Null, skip_ws json i)" by (rule parse_returnsI)
  from parse_returns_unique [OF this assms(1)] assms(2) show False by simp
qed

lemma array_returns_element:
  assumes "parse_returns json i (obj, nx)" and "obj \<noteq> Null" and "i < length json"
    and "array_returns json (if at json nx = CHR '','' then nx + 1 else nx) (res @ [obj]) r"
  shows "array_returns json i res r"
  using parse_returns_not_closing [OF assms(1,2,3)] assms
  by (intro array_returns_step [of i json obj nx res r]) simp_all

lemma object_returns_entry:
  assumes "parse_returns json i (String k, ke)" and "i < length json"
    and "parse_returns json (if at json ke = CHR '':'' then ke + 1 else ke) (v, ve)"
    and "object_returns json (if at json ve = CHR '','' then ve + 1 else ve) (dict_set k v res) r"
  shows "object_returns json i res r"
  using parse_returns_not_closing [OF assms(1) _ assms(2)] assms
  by (intro object_returns_step [of i json k ke v ve res r]) simp_all

lemma render_list_Cons:
  "render_list fmt (x # l) = render fmt x @ (if l = [] then [] else '', '' @ render_list fmt l)"
  by (cases l) simp_all

lemma object_entries_Cons:
  "object_entries fmt w1 w2 ((k, v) # d) =
     dquote # k @ dquote # CHR '':'' # w1 @ render fmt v
       @ (if d = [] then [] else CHR '','' # w2 @ object_entries fmt w1 w2 d)"
  by (cases d) simp_all

lemma render_dict_entries: "render_dict fmt d = object_entries fmt '' '' '' '' d"
proof (induction d)
  case Nil
  show ?case by simp
next
  case (Cons e d)
  obtain k v where e: "e = (k, v)" by (cases e)
  from Cons show ?case unfolding e by (cases d) simp_all
qed

lemma array_elements_return:
  assumes "\<And>x r. x \<in> set l \<Longrightarrow> delimited r \<Longrightarrow>
             parse_returns (render fmt x @ r) 0 (x, length (render fmt x))"
    and "\<And>x. x \<in> set l \<Longrightarrow> x \<noteq> Null"
    and "l \<noteq> []" and "\<forall>c\<in>set w. isspace c"
  shows "array_returns (w @ render_list fmt l @ CHR '']'' # r) 0 res
           (List (res @ l), length w + length (render_list fmt l) + 1)"
  using assms
proof (induction l arbitrary: w res)
  case Nil
  then show ?case by simp
next
  case (Cons x l)
  define T where "T = (if l = [] then [] else '', '' @ render_list fmt l) @ CHR '']'' # r"
  define json where "json = w @ render_list fmt (x # l) @ CHR '']'' # r"
  define nx where "nx = length w + length (render fmt x)"
  have json: "json = w @ render fmt x @ T"
    by (simp add: json_def T_def render_list_Cons)
  have dT: "delimited T" by (simp add: T_def delimited_def)
  have "parse_returns (render fmt x @ T) 0 (x, length (render fmt x))"
    using Cons.prems(1) [of x T] dT by simp
  from parse_returns_spaces [OF Cons.prems(4) this]
  have px: "parse_returns json 0 (x, nx)" by (simp add: json nx_def)
  have len: "0 < length json" by (simp add: json T_def)
  have xn: "x \<noteq> Null" using Cons.prems(2) by simp
  have atT: "at json nx = hd T" "nx < length json" "json ! nx = hd T"
    by (simp_all add: json nx_def at_def nth_append T_def)
  show ?case
  proof (cases "l = []")
    case True
    then have hd: "hd T = CHR '']''" by (simp add: T_def)
    have "array_returns json nx (res @ [x]) (List (res @ [x]), nx + 1)"
      using atT hd by (intro array_returns_close) simp_all
    then have "array_returns json 0 res (List (res @ [x]), nx + 1)"
      using px xn len atT(1) hd by (intro array_returns_element [of json 0 x nx]) simp_all
    then show ?thesis
      using True by (simp add: json_def nx_def add.assoc)
  next
    case False
    then have hd: "hd T = CHR '',''" by (simp add: T_def)
    define p where "p = w @ render fmt x @ '',''"
    have jp: "json = p @ ('' '' @ render_list fmt l @ CHR '']'' # r)"
      using False by (simp add: json p_def T_def)
    have "array_returns ('' '' @ render_list fmt l @ CHR '']'' # r) 0 (res @ [x])
            (List ((res @ [x]) @ l), length '' '' + length (render_list fmt l) + 1)"
      using Cons.prems(1,2) False by (intro Cons.IH) (simp_all add: isspace_def)
    from array_returns_shift [OF this, of p]
    have "array_returns json (nx + 1) (res @ [x])
            (List (res @ x # l), length p + (length (render_list fmt l) + 2))"
      by (simp add: jp p_def nx_def)
    then have "array_returns json 0 res
            (List (res @ x # l), length p + (length (render_list fmt l) + 2))"
      using px xn len atT(1) hd by (intro array_returns_element [of json 0 x nx]) simp_all
    then show ?thesis
      using False by (simp add: json_def p_def render_list_Cons add.assoc)
  qed
qed


lemma object_entries_return:
  assumes "\<And>k v r. (k, v) \<in> set d \<Longrightarrow> delimited r \<Longrightarrow>
             parse_returns (render fmt v @ r) 0 (v, length (render fmt v))"
    and "\<And>k v. (k, v) \<in> set d \<Longrightarrow> plain k"
    and "d \<noteq> []" and "\<forall>c\<in>set w. isspace c"
    and w1: "\<forall>c\<in>set w1. isspace c" and w2: "\<forall>c\<in>set w2. isspace c"
  shows "object_returns (w @ object_entries fmt w1 w2 d @ CHR ''}'' # r) 0 res
           (Dict (assign_all res d), length w + length (object_entries fmt w1 w2 d) + 1)"
  using assms(1-4)
proof (induction d arbitrary: w res)
  case Nil
  then show ?case by simp
next
  case (Cons e d)
  obtain k v where e: "e = (k, v)" by (cases e)
  define T where "T = (if d = [] then [] else CHR '','' # w2 @ object_entries fmt w1 w2 d) @ CHR ''}'' # r"
  define json where "json = w @ object_entries fmt w1 w2 (e # d) @ CHR ''}'' # r"
  define ke where "ke = length w + (length k + 2)"
  define B where "B = w @ dquote # k @ dquote # '':''"
  define ve where "ve = length B + (length w1 + length (render fmt v))"
  have json: "json = w @ (dquote # k @ dquote # (CHR '':'' # w1 @ render fmt v @ T))"
    by (simp add: json_def T_def e object_entries_Cons)
  have jB: "json = B @ (w1 @ render fmt v @ T)" by (simp add: json B_def)
  have dT: "delimited T" by (simp add: T_def delimited_def)
  have pk: "plain k" using Cons.prems(2) [of k v] by (simp add: e)
  have len: "0 < length json" by (simp add: json)
  have "parse_returns (dquote # k @ dquote # (CHR '':'' # w1 @ render fmt v @ T)) 0 (String k, length k + 2)"
    using parse_show_string [OF pk, of 0] by (intro parse_returnsI)
  from parse_returns_spaces [OF Cons.prems(4) this]
  have key: "parse_returns json 0 (String k, ke)" by (simp add: json ke_def)
  have atk: "at json ke = CHR '':''" by (simp add: json ke_def at_def nth_append)
  have keB: "ke + 1 = length B + 0" by (simp add: ke_def B_def)
  have "parse_returns (render fmt v @ T) 0 (v, length (render fmt v))"
    using Cons.prems(1) [of k v T] dT by (simp add: e)
  from parse_returns_shift [OF parse_returns_spaces [OF w1 this], of B]
  have val: "parse_returns json (ke + 1) (v, ve)" unfolding keB by (simp add: jB ve_def)
  have atT: "at json ve = hd T" "ve < length json" "json ! ve = hd T"
    by (simp_all add: jB ve_def at_def nth_append T_def)
  show ?case
  proof (cases "d = []")
    case True
    then have hd: "hd T = CHR ''}''" by (simp add: T_def)
    have "object_returns json ve (dict_set k v res) (Dict (dict_set k v res), ve + 1)"
      using atT hd by (intro object_returns_close) simp_all
    then have "object_returns json 0 res (Dict (dict_set k v res), ve + 1)"
      using key val len atk atT(1) hd
      by (intro object_returns_entry [of json 0 k ke v ve]) simp_all
    then show ?thesis
      using True by (simp add: json_def ve_def B_def e assign_all_def add.assoc)
  next
    case False
    then have hd: "hd T = CHR '',''" by (simp add: T_def)
    define p where "p = B @ w1 @ render fmt v @ '',''"
    have jp: "json = p @ (w2 @ object_entries fmt w1 w2 d @ CHR ''}'' # r)"
      using False by (simp add: jB p_def T_def)
    have "object_returns (w2 @ object_entries fmt w1 w2 d @ CHR ''}'' # r) 0 (dict_set k v res)
            (Dict (assign_all (dict_set k v res) d), length w2 + length (object_entries fmt w1 w2 d) + 1)"
    proof (intro Cons.IH)
      show "parse_returns (render fmt v' @ r') 0 (v', length (render fmt v'))"
        if "(k', v') \<in> set d" and "delimited r'" for k' v' r'
        using Cons.prems(1) [of k' v' r'] that by simp
      show "plain k'" if "(k', v') \<in> set d" for k' v'
        using Cons.prems(2) [of k' v'] that by simp
    qed (use False w2 in simp_all)
    from object_returns_shift [OF this, of p]
    have "object_returns json (ve + 1) (dict_set k v res)
            (Dict (assign_all res (e # d)),
             length p + (length w2 + length (object_entries fmt w1 w2 d) + 1))"
      by (simp add: jp p_def ve_def e assign_all_def)
    then have "object_returns json 0 res
            (Dict (assign_all res (e # d)),
             length p + (length w2 + length (object_entries fmt w1 w2 d) + 1))"
      using key val len atk atT(1) hd
      by (intro object_returns_entry [of json 0 k ke v ve]) simp_all
    then show ?thesis
      using False by (simp add: json_def p_def B_def e object_entries_Cons add.assoc)
  qed
qed

subsection \<open>Assignments to a dictionary\<close>

lemma all_space_iff: "all_space w \<longleftrightarrow> (\<forall>c\<in>set w. isspace c)"
  by (induction w) auto

lemma renderable_list_iff: "renderable_list l \<longleftrightarrow> (\<forall>x\<in>set l. renderable x)"
  by (induction l) auto

lemma renderable_dict_iff: "renderable_dict d \<longleftrightarrow> (\<forall>(k, v)\<in>set d. plain k \<and> renderable v)"
  by (induction d) auto

lemma well_formed_list_iff: "well_formed_list l \<longleftrightarrow> (\<forall>x\<in>set l. well_formed x)"
  by (induction l) auto

lemma well_formed_dict_iff: "well_formed_dict d \<longleftrightarrow> (\<forall>(k, v)\<in>set d. well_formed v)"
  by (induction d) auto

lemma dict_set_keys: "fst ` set (dict_set k v d) = insert k (fst ` set d)"
proof (induction d)
  case Nil
  show ?case by simp
next
  case (Cons e d)
  obtain k' v' where e: "e = (k', v')" by (cases e)
  show ?case
  proof (cases "k' = k")
    case True
    then show ?thesis by (simp add: e)
  next
    case False
    with Cons show ?thesis by (simp add: e insert_commute)
  qed
qed

lemma dict_set_distinct: "distinct (map fst d) \<Longrightarrow> distinct (map fst (dict_set k v d))"
proof (induction d)
  case Nil
  show ?case by simp
next
  case (Cons e d)
  obtain k' v' where e: "e = (k', v')" by (cases e)
  from Cons show ?case
    unfolding e using dict_set_keys [of k v d] by (auto simp: image_iff)
qed

lemma dict_set_values: "set (dict_set k v d) \<subseteq> insert (k, v) (set d)"
  by (induction d) (auto split: if_splits)

lemma map_of_dict_set: "map_of (dict_set k v d) = (map_of d)(k \<mapsto> v)"
  by (induction d) (auto simp: fun_eq_iff split: if_splits)

lemma dict_set_fresh: "k \<notin> fst ` set d \<Longrightarrow> dict_set k v d = d @ [(k, v)]"
  by (induction d) (auto split: if_splits)

lemma assign_all_Cons: "assign_all res ((k, v) # d) = assign_all (dict_set k v res) d"
  by (simp add: assign_all_def)

lemma assign_all_distinct: "distinct (map fst res) \<Longrightarrow> distinct (map fst (assign_all res d))"
proof (induction d arbitrary: res)
  case Nil
  then show ?case by (simp add: assign_all_def)
next
  case (Cons e d)
  obtain k v where e: "e = (k, v)" by (cases e)
  from Cons.IH [OF dict_set_distinct [OF Cons.prems]] show ?case
    unfolding e assign_all_Cons .
qed

lemma map_of_assign_all: "map_of (assign_all res d) = map_of (rev d @ res)"
proof (induction d arbitrary: res)
  case Nil
  show ?case by (simp add: assign_all_def)
next
  case (Cons e d)
  obtain k v where e: "e = (k, v)" by (cases e)
  have "map_of (assign_all res (e # d)) = map_of (rev d @ dict_set k v res)"
    unfolding e assign_all_Cons by (rule Cons.IH)
  also have "\<dots> = map_of (rev d @ (k, v) # res)"
    by (simp add: map_of_dict_set fun_eq_iff map_add_def split: option.splits)
  finally show ?case by (simp add: e)
qed

lemma assign_all_fresh:
  "distinct (map fst (res @ d)) \<Longrightarrow> assign_all res d = res @ d"
proof (induction d arbitrary: res)
  case Nil
  show ?case by (simp add: assign_all_def)
next
  case (Cons e d)
  obtain k v where e: "e = (k, v)" by (cases e)
  from Cons.prems have fresh: "k \<notin> fst ` set res" by (auto simp: e)
  from Cons.prems have "distinct (map fst ((res @ [(k, v)]) @ d))" by (simp add: e)
  from Cons.IH [OF this] show ?case
    unfolding e assign_all_Cons dict_set_fresh [OF fresh] by simp
qed

lemma assign_all_values: "set (assign_all res d) \<subseteq> set res \<union> set d"
proof (induction d arbitrary: res)
  case Nil
  show ?case by (simp add: assign_all_def)
next
  case (Cons e d)
  obtain k v where e: "e = (k, v)" by (cases e)
  from Cons.IH [of "dict_set k v res"] dict_set_values [of k v res] show ?case
    unfolding e assign_all_Cons by auto
qed

subsection \<open>Reading back a printed tree\<close>

lemma sint_in_long: "LONG_MIN \<le> sint (w :: 32 word) \<and> sint w \<le> LONG_MAX"
proof -
  have "- (2 ^ 31) \<le> sint w" "sint w < 2 ^ 31"
    using sint_ge [of w] sint_lt [of w] by simp_all
  then show ?thesis by (simp add: LONG_MIN_def LONG_MAX_def)
qed

lemma reparse_value:
  "renderable v \<Longrightarrow> well_formed v \<Longrightarrow> delimited r \<Longrightarrow>
   parse_returns (render fmt v @ r) 0 (v, length (render fmt v))"
proof (induction v arbitrary: r)
  case Null
  then show ?case by simp
next
  case (Bool b)
  then show ?case by simp
next
  case (Int32 w)
  have "parse (Suc 0) (show_int (sint w) @ r) 0
      = Some (Int32 (word_of_int (sint w)), length (show_int (sint w)))"
    using sint_in_long [of w] Int32.prems(3) by (intro parse_show_int) simp_all
  then show ?case by (intro parse_returnsI [of "Suc 0"]) simp
next
  case (Double d)
  then show ?case by simp
next
  case (String s)
  then have "parse (Suc 0) (dquote # s @ dquote # r) 0 = Some (String s, length s + 2)"
    by (intro parse_show_string) simp
  then show ?case by (intro parse_returnsI [of "Suc 0"]) simp
next
  case (List l)
  have el: "parse_returns (render fmt x @ r') 0 (x, length (render fmt x))"
    if "x \<in> set l" and "delimited r'" for x r'
    using List.IH [OF that(1)] List.prems(1,2) that
    by (simp add: renderable_list_iff well_formed_list_iff)
  have nn: "x \<noteq> Null" if "x \<in> set l" for x
    using List.prems(1) that by (auto simp: renderable_list_iff)
  have sk: "skip_ws (CHR ''['' # render_list fmt l @ CHR '']'' # r) 0 = 0"
    by (simp add: skip_ws_nonspace isspace_def)
  have "array_returns (render fmt (List l) @ r) (0 + 1) [] (List l, length (render fmt (List l)))"
  proof (cases "l = []")
    case True
    have "array_returns (''[]'' @ r) 1 [] (List [], 1 + 1)"
      by (intro array_returns_close) simp_all
    with True show ?thesis by simp
  next
    case False
    have "array_returns ([] @ render_list fmt l @ CHR '']'' # r) 0 []
            (List ([] @ l), length ([] :: string) + length (render_list fmt l) + 1)"
      using el nn False by (intro array_elements_return) simp_all
    from array_returns_shift [OF this, of "''[''"] show ?thesis by simp
  qed
  then show ?case
    by (intro parse_returns_array) (simp_all add: sk)
next
  case (Dict d)
  have el: "parse_returns (render fmt v @ r') 0 (v, length (render fmt v))"
    if "(k, v) \<in> set d" and "delimited r'" for k v r'
  proof -
    from that(1) Dict.prems(1,2) have "renderable v" "well_formed v"
      by (auto simp: renderable_dict_iff well_formed_dict_iff)
    with Dict.IH [of "(k, v)" v r'] that show ?thesis by simp
  qed
  have pk: "plain k" if "(k, v) \<in> set d" for k v
    using Dict.prems(1) that by (auto simp: renderable_dict_iff)
  have dist: "assign_all [] d = d"
    using Dict.prems(2) assign_all_fresh [of "[]" d] by simp
  have sk: "skip_ws (CHR ''{'' # render_dict fmt d @ CHR ''}'' # r) 0 = 0"
    by (simp add: skip_ws_nonspace isspace_def)
  have "object_returns (render fmt (Dict d) @ r) (0 + 1) [] (Dict d, length (render fmt (Dict d)))"
  proof (cases "d = []")
    case True
    have "object_returns (''{}'' @ r) 1 [] (Dict [], 1 + 1)"
      by (intro object_returns_close) simp_all
    with True show ?thesis by simp
  next
    case False
    have "object_returns ([] @ object_entries fmt '' '' '' '' d @ CHR ''}'' # r) 0 []
            (Dict (assign_all [] d), length ([] :: string) + length (object_entries fmt '' '' '' '' d) + 1)"
      using el pk False by (intro object_entries_return) (simp_all add: isspace_def)
    from object_returns_shift [OF this, of "''{''"] show ?thesis
      by (simp add: dist render_dict_entries)
  qed
  then show ?case
    by (intro parse_returns_object) (simp_all add: sk)
qed

subsection \<open>Trees that parse returns\<close>




subsection \<open>Inputs on which the loops never end\<close>



lemma object_loop_stalls: "object_loop n ''{x'' (Suc 0) res = None"
proof (induction n arbitrary: res)
  case 0
  show ?case by (simp add: object_loop.simps)
next
  case (Suc n)
  have s: "skip_ws ''{x'' (Suc 0) = Suc 0" by code_simp
  show ?case
  proof (cases n)
    case 0
    then show ?thesis by (simp add: object_loop.simps parse.simps)
  next
    case m: (Suc m)
    have p: "parse n ''{x'' (Suc 0) = Some (Null, Suc 0)"
      using parse_fallback [of "''{x''" "Suc 0" m] unfolding s m
      by (simp add: isdigit_def dquote_def)
    have a: "at ''{x'' (Suc 0) = CHR ''x''" by (simp add: at_def)
    show ?thesis
      by (simp add: object_loop.simps(2) p a Suc.IH)
  qed
qed

subsection \<open>The order of a dictionary's entries\<close>




lemma iteration_order_id: "iteration_order (\<lambda>d. d)"
  by (simp add: iteration_order_def)

subsection \<open>Object literals with a repeated key\<close>

text \<open>
  For entries with plain keys and renderable values, written as an object literal with
  white space after the colons and the commas only, \<open>parse\<close> returns the dictionary
  after the assignments in order: its keys are unique and every key has the value of
  its last entry.
\<close>

lemma object_literal_last_wins:
  assumes "renderable_dict d" and "well_formed_dict d" and "all_space w1" and "all_space w2"
  shows "parse_returns (object_literal fmt w1 w2 d) 0
           (Dict (assign_all [] d), length (object_literal fmt w1 w2 d))
         \<and> distinct (map fst (assign_all [] d))
         \<and> map_of (assign_all [] d) = map_of (rev d)"
proof (intro conjI)
  have el: "parse_returns (render fmt v @ r) 0 (v, length (render fmt v))"
    if "(k, v) \<in> set d" and "delimited r" for k v r
  proof -
    from that(1) assms(1,2) have "renderable v" "well_formed v"
      by (auto simp: renderable_dict_iff well_formed_dict_iff)
    then show ?thesis using that(2) by (rule reparse_value)
  qed
  have pk: "plain k" if "(k, v) \<in> set d" for k v
    using assms(1) that by (auto simp: renderable_dict_iff)
  have sk: "skip_ws (CHR ''{'' # object_entries fmt w1 w2 d @ ''}'') 0 = 0"
    by (simp add: skip_ws_nonspace isspace_def)
  have "object_returns (object_literal fmt w1 w2 d) (0 + 1) []
          (Dict (assign_all [] d), length (object_literal fmt w1 w2 d))"
  proof (cases "d = []")
    case True
    have "object_returns ''{}'' 1 [] (Dict [], 1 + 1)"
      by (intro object_returns_close) simp_all
    with True show ?thesis by (simp add: object_literal_def assign_all_def)
  next
    case False
    have "object_returns ([] @ object_entries fmt w1 w2 d @ CHR ''}'' # []) 0 []
            (Dict (assign_all [] d), length ([] :: string) + length (object_entries fmt w1 w2 d) + 1)"
      using el pk False assms(3,4)
      by (intro object_entries_return) (simp_all add: all_space_iff)
    from object_returns_shift [OF this, of "''{''"] show ?thesis
      by (simp add: object_literal_def)
  qed
  then show "parse_returns (object_literal fmt w1 w2 d) 0
           (Dict (assign_all [] d), length (object_literal fmt w1 w2 d))"
    unfolding object_literal_def by (intro parse_returns_object) (simp_all add: sk)
  show "distinct (map fst (assign_all [] d))"
    by (rule assign_all_distinct) simp
  show "map_of (assign_all [] d) = map_of (rev d)"
    by (simp add: map_of_assign_all)
qed

section \<open>The claims\<close>

subsection \<open>C1: malformed input\<close>

text \<open>
  Claim C1, as amended. \<open>parse\<close> has no error result: its return type is a value and a
  cursor. On \<open>[1,2\<close> it returns \<open>Null\<close> with the cursor at the start offset 0; on
  \<open>[1,2,]\<close> it returns the list of 1 and 2 with cursor 6; on \<open>01x\<close> it returns the
  integer 1 with cursor 2; and whenever the first character after the white space is
  none of a digit, \<open>+\<close>, \<open>-\<close>, \<open>"\<close>, \<open>[\<close>, \<open>{\<close>, it returns \<open>Null\<close> with the cursor at
  that character.
\<close>

theorem malformed_returns_value:
  "parse_returns ''[1,2'' 0 (Null, 0)
   \<and> parse_returns ''[1,2,]'' 0 (List [Int32 1, Int32 2], 6)
   \<and> parse_returns ''01x'' 0 (Int32 1, 2)
   \<and> (skip_ws json start < length json
        \<and> \<not> isdigit (json ! skip_ws json start)
        \<and> json ! skip_ws json start \<notin> {CHR ''-'', CHR ''+'', dquote, CHR ''['', CHR ''{''}
      \<longrightarrow> (\<forall>n. parse (Suc n) json start = Some (Null, skip_ws json start)))"
proof (intro conjI impI allI)
  have "parse 4 ''[1,2'' 0 = Some (Null, 0)" by code_simp
  then show "parse_returns ''[1,2'' 0 (Null, 0)" by (rule parse_returnsI)
  have "parse 4 ''[1,2,]'' 0 = Some (List [Int32 1, Int32 2], 6)" by code_simp
  then show "parse_returns ''[1,2,]'' 0 (List [Int32 1, Int32 2], 6)"
    by (rule parse_returnsI)
  have "parse 1 ''01x'' 0 = Some (Int32 1, 2)" by code_simp
  then show "parse_returns ''01x'' 0 (Int32 1, 2)" by (rule parse_returnsI)
next
  fix n
  assume "skip_ws json start < length json
        \<and> \<not> isdigit (json ! skip_ws json start)
        \<and> json ! skip_ws json start \<notin> {CHR ''-'', CHR ''+'', dquote, CHR ''['', CHR ''{''}"
  then show "parse (Suc n) json start = Some (Null, skip_ws json start)"
    using parse_fallback [of json start n] by blast
qed

theorem malformed_returns_value_witness:
  "skip_ws ''x'' 0 < length ''x''
   \<and> \<not> isdigit (''x'' ! skip_ws ''x'' 0)
   \<and> ''x'' ! skip_ws ''x'' 0 \<notin> {CHR ''-'', CHR ''+'', dquote, CHR ''['', CHR ''{''}
   \<and> parse (Suc 0) ''x'' 0 = Some (Null, 0)"
proof -
  have s: "skip_ws ''x'' 0 = 0" by code_simp
  have h: "skip_ws ''x'' 0 < length ''x''
   \<and> \<not> isdigit (''x'' ! skip_ws ''x'' 0)
   \<and> ''x'' ! skip_ws ''x'' 0 \<notin> {CHR ''-'', CHR ''+'', dquote, CHR ''['', CHR ''{''}"
    unfolding s by (simp add: isdigit_def dquote_def)
  from malformed_returns_value [of "''x''" 0, THEN conjunct2, THEN conjunct2, THEN conjunct2,
      rule_format, OF h, of 0] h s
  show ?thesis by simp
qed

text \<open>
  C1 as stated fails: on \<open>[1,2\<close> the call returns \<open>Null\<close> at cursor 0, not an error.
\<close>

theorem malformed_array_counterexample:
  "parse 4 ''[1,2'' 0 = Some (Null, 0)"
  by code_simp

subsection \<open>C2: termination\<close>

text \<open>
  Claim C2 says that \<open>parse\<close> terminates on every buffer. On \<open>{x\<close> it does not: the
  object loop parses a key and a value at offset 1, both calls return \<open>Null\<close> with the
  cursor unchanged, and the loop starts again at offset 1. No amount of fuel is enough.
\<close>

theorem parse_stalls_on_open_brace: "\<not> parse_terminates ''{x'' 0"
proof -
  have "parse n ''{x'' 0 = None" for n
  proof (cases n)
    case 0
    then show ?thesis by (simp add: parse.simps)
  next
    case (Suc m)
    have s: "skip_ws ''{x'' 0 = 0" by code_simp
    show ?thesis
      unfolding Suc parse.simps(2) Let_def s
      by (simp add: isdigit_def dquote_def object_loop_stalls)
  qed
  then show ?thesis by (simp add: parse_terminates_def)
qed

subsection \<open>C3: the tag of a numeric literal\<close>

text \<open>
  Claim C3 says that a literal without point and exponent yields \<open>Int\<close> only when its
  value is in the range of \<open>int\<close>, and \<open>Double\<close> otherwise. \<open>try_parse_int\<close> checks
  only that \<open>strtol\<close> consumed the text: on \<open>99999999999\<close> the call returns \<open>Int\<close>,
  holding the low 32 bits of the value. The rest of the claim holds for every match
  (\<open>number_literal_tag\<close>).
\<close>

theorem int_overflow_yields_int:
  "parse 1 ''99999999999'' 0 = Some (Int32 1215752191, 11)
   \<and> dec_val ''99999999999'' = 99999999999"
  by code_simp

subsection \<open>C4: unterminated strings\<close>

text \<open>
  Claim C4, as amended. When the first character after the white space is \<open>"\<close> and the
  rest of the buffer holds no closing quote, \<open>parse\<close> returns \<open>Null\<close> with the cursor at
  the opening quote: no \<open>String\<close> value is returned, and no error either.
\<close>

theorem unterminated_string_returns_null:
  assumes "skip_ws json start < length json"
    and "json ! skip_ws json start = dquote"
    and "\<not> has_close (drop (skip_ws json start + 1) json)"
  shows "parse (Suc n) json start = Some (Null, skip_ws json start)"
proof -
  from assms(3) have "string_loop json (skip_ws json start + 1) [] = None"
    by (simp add: string_loop_None_iff)
  with assms(1,2) show ?thesis
    by (simp add: parse.simps Let_def isdigit_def dquote_def)
qed

theorem unterminated_string_returns_null_witness:
  "skip_ws [dquote, CHR ''a''] 0 < length [dquote, CHR ''a'']
   \<and> [dquote, CHR ''a''] ! skip_ws [dquote, CHR ''a''] 0 = dquote
   \<and> \<not> has_close (drop (skip_ws [dquote, CHR ''a''] 0 + 1) [dquote, CHR ''a''])
   \<and> parse (Suc 0) [dquote, CHR ''a''] 0 = Some (Null, 0)"
proof -
  have s: "skip_ws [dquote, CHR ''a''] 0 = 0" by code_simp
  have 1: "skip_ws [dquote, CHR ''a''] 0 < length [dquote, CHR ''a'']" unfolding s by simp
  have 2: "[dquote, CHR ''a''] ! skip_ws [dquote, CHR ''a''] 0 = dquote" unfolding s by simp
  have 3: "\<not> has_close (drop (skip_ws [dquote, CHR ''a''] 0 + 1) [dquote, CHR ''a''])"
    unfolding s by (simp add: dquote_def)
  from unterminated_string_returns_null [OF 1 2 3, of 0] 1 2 3 s show ?thesis by simp
qed

text \<open>
  C4 as stated fails: on the four characters \<open>"abc\<close> the call returns \<open>Null\<close> at
  cursor 0, not an error.
\<close>

theorem unterminated_string_counterexample:
  "parse 1 [dquote, CHR ''a'', CHR ''b'', CHR ''c''] 0 = Some (Null, 0)"
  by code_simp

subsection \<open>C5: keys that are not strings\<close>

text \<open>
  Claim C5, as amended. In the object loop, when the parsed key is not a \<open>String\<close>, the
  key and its value are dropped: the loop goes on after the value with the dictionary
  unchanged.
\<close>

theorem non_string_key_is_skipped:
  assumes "i < length json" and "json ! i \<noteq> CHR ''}''"
    and "parse n json i = Some (keyobj, keyeaten)"
    and "\<forall>k. keyobj \<noteq> String k"
    and "parse n json (if at json keyeaten = CHR '':'' then keyeaten + 1 else keyeaten)
         = Some (valobj, valeaten)"
  shows "object_loop (Suc n) json i res
         = object_loop n json (if at json valeaten = CHR '','' then valeaten + 1 else valeaten) res"
proof -
  from assms(4) have "(case keyobj of String k \<Rightarrow> dict_set k valobj res | _ \<Rightarrow> res) = res"
    by (cases keyobj) simp_all
  with assms(1,2,3,5) show ?thesis
    by (simp add: object_loop.simps(2))
qed

theorem non_string_key_is_skipped_witness:
  "(1::nat) < length ''{1:2}'' \<and> ''{1:2}'' ! 1 \<noteq> CHR ''}''
   \<and> parse 1 ''{1:2}'' 1 = Some (Int32 1, 2)
   \<and> (\<forall>k. Int32 1 \<noteq> String k)
   \<and> parse 1 ''{1:2}'' (if at ''{1:2}'' 2 = CHR '':'' then 2 + 1 else 2) = Some (Int32 2, 4)
   \<and> object_loop (Suc 1) ''{1:2}'' 1 [(''k'', Null)]
       = object_loop 1 ''{1:2}'' (if at ''{1:2}'' 4 = CHR '','' then 4 + 1 else 4) [(''k'', Null)]"
proof -
  have 1: "(1::nat) < length ''{1:2}''" by simp
  have 2: "''{1:2}'' ! 1 \<noteq> CHR ''}''" by simp
  have 3: "parse 1 ''{1:2}'' 1 = Some (Int32 1, 2)" by code_simp
  have 4: "\<forall>k. Int32 1 \<noteq> String k" by simp
  have 5: "parse 1 ''{1:2}'' (if at ''{1:2}'' 2 = CHR '':'' then 2 + 1 else 2) = Some (Int32 2, 4)"
    by code_simp
  from non_string_key_is_skipped [OF 1 2 3 4 5, of "[(''k'', Null)]"] 1 2 3 4 5
  show ?thesis by blast
qed

text \<open>
  C5 as stated fails: \<open>{1:2}\<close> parses to the empty dictionary, with cursor 5.
\<close>

theorem non_string_key_counterexample:
  "parse 4 ''{1:2}'' 0 = Some (Dict [], 5)"
  by code_simp

subsection \<open>C6: white space\<close>

text \<open>
  Claim C6 says that \<open>[ 1 , 2 ]\<close> parses to the same list as \<open>[1,2]\<close> and
  \<open>{ "a" : 1 }\<close> to the same tree as \<open>{"a":1}\<close>. \<open>parse\<close> skips white space at the
  start of a value only: before \<open>,\<close>, \<open>:\<close>, \<open>]\<close> and \<open>}\<close> the loops read the space,
  call \<open>parse\<close>, and get \<open>Null\<close>. The first list has four elements, and the first
  dictionary maps \<open>a\<close> to \<open>Null\<close>.
\<close>

theorem space_before_delimiter_yields_null:
  "parse 6 ''[ 1 , 2 ]'' 0 = Some (List [Int32 1, Null, Int32 2, Null], 9)
   \<and> parse 6 ''[1,2]'' 0 = Some (List [Int32 1, Int32 2], 5)
   \<and> parse 6 [CHR ''{'', CHR 0x20, dquote, CHR ''a'', dquote, CHR 0x20, CHR '':'', CHR 0x20, CHR ''1'', CHR 0x20, CHR ''}''] 0
       = Some (Dict [(''a'', Null)], 11)
   \<and> parse 6 [CHR ''{'', dquote, CHR ''a'', dquote, CHR '':'', CHR ''1'', CHR ''}''] 0
       = Some (Dict [(''a'', Int32 1)], 7)"
  by code_simp

subsection \<open>C7: the exhausted buffer\<close>

text \<open>
  Claim C7, as amended. If the buffer is exhausted after the white space from the start
  cursor, \<open>parse\<close> returns \<open>Null\<close> with the cursor where the skipping stopped: the
  length of the buffer, or the start offset when that is already past the end.
\<close>

theorem parse_exhausted_returns_end:
  assumes "length json \<le> skip_ws json start"
  shows "parse (Suc n) json start = Some (Null, max start (length json))"
  using assms by (rule parse_exhausted)

theorem parse_exhausted_returns_end_witness:
  "length [CHR 0x20, CHR 0x20] \<le> skip_ws [CHR 0x20, CHR 0x20] 0
   \<and> parse (Suc 0) [CHR 0x20, CHR 0x20] 0 = Some (Null, 2)"
proof -
  have h: "length [CHR 0x20, CHR 0x20] \<le> skip_ws [CHR 0x20, CHR 0x20] 0" by code_simp
  from parse_exhausted_returns_end [OF h, of 0] h show ?thesis by simp
qed

text \<open>
  C7 as stated fails: from offset 0 of a buffer of two spaces the returned cursor is 2,
  not 0.
\<close>

theorem exhausted_cursor_counterexample:
  "parse 1 [CHR 0x20, CHR 0x20] 0 = Some (Null, 2)"
  by code_simp

subsection \<open>C8: duplicate keys\<close>

text \<open>
  Claim C8 says that in every object literal that holds a key more than once the last
  assignment wins. On \<open>{"a":1,"a" :2}\<close>, with a space before the second colon, the
  last value of \<open>a\<close> is 2 and \<open>parse\<close> returns the dictionary that maps \<open>a\<close> to
  \<open>Null\<close>, with cursor 14: the object loop does not skip the space, takes \<open>Null\<close>
  from the fallback as the value of \<open>a\<close>, and drops the 2 with a key that is no
  string. Without the space the same literal yields \<open>a\<close> mapped to the integer 2.
\<close>

theorem duplicate_key_space_before_colon:
  "parse 8 [CHR ''{'', dquote, CHR ''a'', dquote, CHR '':'', CHR ''1'', CHR '','',
            dquote, CHR ''a'', dquote, CHR 0x20, CHR '':'', CHR ''2'', CHR ''}''] 0
     = Some (Dict [(''a'', Null)], 14)
   \<and> parse 8 [CHR ''{'', dquote, CHR ''a'', dquote, CHR '':'', CHR ''1'', CHR '','',
              dquote, CHR ''a'', dquote, CHR '':'', CHR ''2'', CHR ''}''] 0
     = Some (Dict [(''a'', Int32 2)], 13)"
  by code_simp

subsection \<open>C9: printing and parsing again\<close>




subsection \<open>C10: the cursor never moves backwards\<close>

text \<open>
  Claim C10: for a start offset not past the end of the buffer, the cursor that \<open>parse\<close>
  returns is at least the start offset. It is also at most the length of the buffer.
\<close>

theorem parse_cursor_monotone:
  assumes "start \<le> length json" and "parse n json start = Some (v, e)"
  shows "start \<le> e \<and> e \<le> length json"
  using cursor_bounds_all [of n, THEN conjunct1, rule_format, OF assms(2)] assms(1) by simp

theorem parse_cursor_monotone_witness:
  "(0::nat) \<le> length ''[1,2]'' \<and> parse 4 ''[1,2]'' 0 = Some (List [Int32 1, Int32 2], 5)
   \<and> (0::nat) \<le> 5 \<and> (5::nat) \<le> length ''[1,2]''"
proof -
  have h: "parse 4 ''[1,2]'' 0 = Some (List [Int32 1, Int32 2], 5)" by code_simp
  have l: "(0::nat) \<le> length ''[1,2]''" by simp
  from parse_cursor_monotone [OF l h] h show ?thesis by simp
qed

end
